theory Spec2Isabelle
  imports Main "HOL-Library.Word"
begin

unbundle bit_operations_syntax

section \<open>Data model of csim.c\<close>

text \<open>
  \<open>mem_addr_t\<close> is \<open>unsigned long long\<close>: a 64-bit word. The statistics counters,
  the LRU clock \<open>counter\<close> and the per-line \<open>count\<close> are C \<open>int\<close>s: 32-bit words read
  as two's complement (\<open>sint\<close>), compared with the signed order \<open><s\<close>. \<open>++\<close> on them is
  the machine addition, which wraps from \<open>INT_MAX\<close> to \<open>INT_MIN\<close>; C leaves that overflow
  undefined, and the properties below that depend on a counter's value are stated for
  the runs in which the clock has not reached \<open>INT_MAX\<close>.
\<close>

type_synonym mem_addr_t = "64 word"
type_synonym c_int = "32 word"

definition INT_MAX :: c_int where
  "INT_MAX = 2147483647"

text \<open>A cache line: \<open>valid\<close> is a C \<open>char\<close> holding the character 0 or 1.\<close>

record cache_line_t =
  valid :: char
  tag :: mem_addr_t
  count :: c_int

type_synonym cache_set_t = "cache_line_t list"
type_synonym cache_t = "cache_set_t list"

text \<open>
  The globals that \<open>access_data\<close> reads and writes. The geometry globals \<open>b\<close>, \<open>s\<close> and
  \<open>E\<close> are set once from the command line and never written again: they are the
  parameters \<open>b\<close>, \<open>s\<close>, \<open>E\<close> of the functions below, as natural numbers (the
  non-negative values of the C \<open>int\<close>s).
\<close>

record sim =
  cache :: cache_t
  hit_cnt :: c_int
  miss_cnt :: c_int
  evict_cnt :: c_int
  counter :: c_int

text \<open>
  The other operations that C leaves undefined are faults of the model: a read or write
  outside an allocated array, a shift by a negative amount or by the width of the type
  or more, and the conversion to \<open>int\<close> of a \<open>double\<close> that does not fit.
\<close>

datatype fault = OutOfBounds | UndefinedShift | IntRange

text \<open>
  \<open>access_data\<close> returns \<open>void\<close>. The model also reports which of its four \<open>return\<close>
  statements was taken: the hit (line 165), the fill of a free line (line 208), the
  eviction (line 221) and the last one (line 225, commented "Will never reach this"),
  where the miss has been counted and no line was written.
\<close>

datatype outcome = Hit | Miss | MissEvict | MissNoLine

section \<open>init_cache\<close>

definition empty_line :: cache_line_t where
  "empty_line = \<lparr>valid = CHR ''0'', tag = 0, count = 0\<rparr>"

text \<open>
  \<open>S = pow(2, s)\<close> is stored in an \<open>int\<close>, which holds it up to \<open>s = 30\<close>; it is the
  number of sets allocated. \<open>B = pow(2, b)\<close> is stored too and never read again, so \<open>b\<close>
  has no effect on the cache that is built. Then \<open>S\<close> sets of \<open>E\<close> lines are allocated
  and every line is written with \<open>'0'\<close>, 0, 0. A failed \<open>malloc\<close> exits the program; the
  model is of the runs where allocation succeeds.
\<close>

definition init_cache :: "nat \<Rightarrow> nat \<Rightarrow> nat \<Rightarrow> fault + cache_t" where
  "init_cache b s E =
     (if s < 31 then Inr (replicate (2 ^ s) (replicate E empty_line)) else Inl IntRange)"

text \<open>The state after \<open>init_cache\<close>: the counters and the clock have their initialisers.\<close>

definition init_sim :: "nat \<Rightarrow> nat \<Rightarrow> nat \<Rightarrow> fault + sim" where
  "init_sim b s E =
     (case init_cache b s E of
        Inl f \<Rightarrow> Inl f
      | Inr c \<Rightarrow> Inr \<lparr>cache = c, hit_cnt = 0, miss_cnt = 0, evict_cnt = 0, counter = 1\<rparr>)"

section \<open>access_data\<close>

subsection \<open>Address decoding (lines 146 to 150)\<close>

definition sBitMask :: "nat \<Rightarrow> mem_addr_t" where
  "sBitMask s = push_bit s 1 - 1"

definition tBitMask :: "nat \<Rightarrow> nat \<Rightarrow> mem_addr_t" where
  "tBitMask b s = push_bit (64 - b - s) 1 - 1"

definition addr_set :: "nat \<Rightarrow> nat \<Rightarrow> mem_addr_t \<Rightarrow> mem_addr_t" where
  "addr_set b s addr = drop_bit b addr AND sBitMask s"

definition addr_tag :: "nat \<Rightarrow> nat \<Rightarrow> mem_addr_t \<Rightarrow> mem_addr_t" where
  "addr_tag b s addr = drop_bit (b + s) addr AND tBitMask b s"

text \<open>
  The four shifts are by \<open>s\<close>, \<open>64 - b - s\<close>, \<open>b\<close> and \<open>b + s\<close>; all four amounts are
  in the range 0 to 63 exactly when \<open>0 < b + s\<close> and \<open>b + s < 64\<close>.
\<close>

definition shifts_defined :: "nat \<Rightarrow> nat \<Rightarrow> bool" where
  "shifts_defined b s \<longleftrightarrow> 0 < b + s \<and> b + s < 64"

subsection \<open>Reading and writing \<open>cache[set][line]\<close>\<close>

definition line_at :: "cache_t \<Rightarrow> nat \<Rightarrow> nat \<Rightarrow> fault + cache_line_t" where
  "line_at c i j =
     (if i < length c \<and> j < length (c ! i) then Inr (c ! i ! j) else Inl OutOfBounds)"

definition set_line :: "cache_t \<Rightarrow> nat \<Rightarrow> nat \<Rightarrow> cache_line_t \<Rightarrow> cache_t" where
  "set_line c i j ln = c[i := (c ! i)[j := ln]]"

subsection \<open>The first loop (lines 155 to 167): looking for a hit\<close>

function hit_scan :: "nat \<Rightarrow> cache_t \<Rightarrow> nat \<Rightarrow> mem_addr_t \<Rightarrow> nat \<Rightarrow> fault + nat option" where
  "hit_scan E c i tg line =
     (if line < E then
        (case line_at c i line of
           Inl f \<Rightarrow> Inl f
         | Inr ln \<Rightarrow>
             if tag ln = tg \<and> valid ln = CHR ''1'' then Inr (Some line)
             else hit_scan E c i tg (Suc line))
      else Inr None)"
  by pat_completeness auto
termination
  by (relation "measure (\<lambda>(E, c, i, tg, line). E - line)") auto

declare hit_scan.simps [simp del]

subsection \<open>The second loop (lines 185 to 198): a free line, or the least recent one\<close>

text \<open>
  The loop state is \<open>freeLine\<close>, \<open>evictLine\<close> (\<open>None\<close> for the C value -1) and
  \<open>minCount\<close>. Finding a free line leaves the loop at once.
\<close>

function victim_scan ::
  "nat \<Rightarrow> cache_t \<Rightarrow> nat \<Rightarrow> nat \<Rightarrow> nat option \<Rightarrow> c_int \<Rightarrow> fault + (nat option \<times> nat option)" where
  "victim_scan E c i line evictLine minCount =
     (if line < E then
        (case line_at c i line of
           Inl f \<Rightarrow> Inl f
         | Inr ln \<Rightarrow>
             if valid ln = CHR ''0'' then Inr (Some line, evictLine)
             else if count ln <s minCount
               then victim_scan E c i (Suc line) (Some line) (count ln)
               else victim_scan E c i (Suc line) evictLine minCount)
      else Inr (None, evictLine))"
  by pat_completeness auto
termination
  by (relation "measure (\<lambda>(E, c, i, line, evictLine, minCount). E - line)") auto

declare victim_scan.simps [simp del]

subsection \<open>The function\<close>

definition fill_line :: "sim \<Rightarrow> nat \<Rightarrow> nat \<Rightarrow> mem_addr_t \<Rightarrow> sim" where
  "fill_line st i j tg =
     st\<lparr>cache := set_line (cache st) i j \<lparr>valid = CHR ''1'', tag = tg, count = counter st\<rparr>,
        counter := counter st + 1\<rparr>"

text \<open>Lines 177 to 225: the miss has been counted in \<open>st1\<close>.\<close>

definition on_miss :: "nat \<Rightarrow> sim \<Rightarrow> nat \<Rightarrow> mem_addr_t \<Rightarrow> fault + (outcome \<times> sim)" where
  "on_miss E st1 i tg =
     (case victim_scan E (cache st1) i 0 None INT_MAX of
        Inl f \<Rightarrow> Inl f
      | Inr (Some freeLine, evictLine) \<Rightarrow> Inr (Miss, fill_line st1 i freeLine tg)
      | Inr (None, Some evictLine) \<Rightarrow>
          Inr (MissEvict, fill_line (st1\<lparr>evict_cnt := evict_cnt st1 + 1\<rparr>) i evictLine tg)
      | Inr (None, None) \<Rightarrow> Inr (MissNoLine, st1))"

text \<open>Lines 159 to 165: the hit at \<open>line\<close>.\<close>

definition on_hit :: "sim \<Rightarrow> nat \<Rightarrow> nat \<Rightarrow> sim" where
  "on_hit st i line =
     st\<lparr>hit_cnt := hit_cnt st + 1,
        cache := set_line (cache st) i line ((cache st ! i ! line)\<lparr>count := counter st\<rparr>),
        counter := counter st + 1\<rparr>"

definition access_data ::
  "nat \<Rightarrow> nat \<Rightarrow> nat \<Rightarrow> sim \<Rightarrow> mem_addr_t \<Rightarrow> fault + (outcome \<times> sim)" where
  "access_data b s E st addr =
     (if \<not> shifts_defined b s then Inl UndefinedShift
      else
        let i = unat (addr_set b s addr);
            tg = addr_tag b s addr
        in (case hit_scan E (cache st) i tg 0 of
              Inl f \<Rightarrow> Inl f
            | Inr (Some line) \<Rightarrow> Inr (Hit, on_hit st i line)
            | Inr None \<Rightarrow> on_miss E (st\<lparr>miss_cnt := miss_cnt st + 1\<rparr>) i tg))"

section \<open>replay_trace\<close>

text \<open>
  A trace record is what the loop body uses of one line of the file: the character
  \<open>buf[1]\<close> and the address that \<open>sscanf\<close> stored in \<open>addr\<close>. Reading and scanning the
  text are not modelled.
\<close>

type_synonym trace_rec = "char \<times> mem_addr_t"

definition access_twice ::
  "nat \<Rightarrow> nat \<Rightarrow> nat \<Rightarrow> sim \<Rightarrow> mem_addr_t \<Rightarrow> fault + (outcome list \<times> sim)" where
  "access_twice b s E st addr =
     (case access_data b s E st addr of
        Inl f \<Rightarrow> Inl f
      | Inr (o1, st1) \<Rightarrow>
          (case access_data b s E st1 addr of
             Inl f \<Rightarrow> Inl f
           | Inr (o2, st2) \<Rightarrow> Inr ([o1, o2], st2)))"

definition access_once ::
  "nat \<Rightarrow> nat \<Rightarrow> nat \<Rightarrow> sim \<Rightarrow> mem_addr_t \<Rightarrow> fault + (outcome list \<times> sim)" where
  "access_once b s E st addr =
     (case access_data b s E st addr of
        Inl f \<Rightarrow> Inl f
      | Inr (o1, st1) \<Rightarrow> Inr ([o1], st1))"

text \<open>The body of the \<open>while\<close> loop (lines 252 to 269) for one record.\<close>

definition replay_rec ::
  "nat \<Rightarrow> nat \<Rightarrow> nat \<Rightarrow> sim \<Rightarrow> trace_rec \<Rightarrow> fault + (outcome list \<times> sim)" where
  "replay_rec b s E st r =
     (let k = fst r; addr = snd r in
      if k = CHR ''S'' \<or> k = CHR ''L'' \<or> k = CHR ''M'' then
        (if k = CHR ''M'' then access_twice b s E st addr
         else if k = CHR ''L'' then access_once b s E st addr
         else if k = CHR ''S'' then access_once b s E st addr
         else Inr ([], st))
      else Inr ([], st))"

fun replay_trace ::
  "nat \<Rightarrow> nat \<Rightarrow> nat \<Rightarrow> sim \<Rightarrow> trace_rec list \<Rightarrow> fault + (outcome list \<times> sim)" where
  "replay_trace b s E st [] = Inr ([], st)"
| "replay_trace b s E st (r # rs) =
     (case replay_rec b s E st r of
        Inl f \<Rightarrow> Inl f
      | Inr (os1, st1) \<Rightarrow>
          (case replay_trace b s E st1 rs of
             Inl f \<Rightarrow> Inl f
           | Inr (os2, st2) \<Rightarrow> Inr (os1 @ os2, st2)))"

section \<open>Geometry, shape and the invariant of the simulation\<close>

text \<open>The geometries the simulator is meant for: all three positive, and a tag field left.\<close>

definition geom_ok :: "nat \<Rightarrow> nat \<Rightarrow> nat \<Rightarrow> bool" where
  "geom_ok b s E \<longleftrightarrow> 0 < b \<and> 0 < s \<and> 0 < E \<and> b + s < 64"

text \<open>The arrays as \<open>init_cache\<close> allocates them: \<open>2 ^ s\<close> sets of \<open>E\<close> lines.\<close>

definition cache_shape :: "nat \<Rightarrow> nat \<Rightarrow> cache_t \<Rightarrow> bool" where
  "cache_shape s E c \<longleftrightarrow> length c = 2 ^ s \<and> (\<forall>i<length c. length (c ! i) = E)"

text \<open>A line is marked invalid or valid, and a valid line was stamped before the clock's value.\<close>

definition line_ok :: "c_int \<Rightarrow> cache_line_t \<Rightarrow> bool" where
  "line_ok clk ln \<longleftrightarrow>
     (valid ln = CHR ''0'' \<or> valid ln = CHR ''1'') \<and>
     (valid ln = CHR ''1'' \<longrightarrow> sint (count ln) < sint clk)"

text \<open>No two valid lines of the cache hold the same \<open>count\<close>.\<close>

definition clock_unique :: "cache_t \<Rightarrow> bool" where
  "clock_unique c \<longleftrightarrow>
     (\<forall>i<length c. \<forall>j<length (c ! i). \<forall>i'<length c. \<forall>j'<length (c ! i').
        valid (c ! i ! j) = CHR ''1'' \<and> valid (c ! i' ! j') = CHR ''1'' \<and>
        count (c ! i ! j) = count (c ! i' ! j') \<longrightarrow> i = i' \<and> j = j')"

text \<open>
  The counters as signed values: none is negative, evictions are at most the misses, and
  the clock is one more than the number of accesses counted.
\<close>

definition counters_ok :: "sim \<Rightarrow> bool" where
  "counters_ok st \<longleftrightarrow>
     0 \<le> sint (hit_cnt st) \<and> 0 \<le> sint (evict_cnt st) \<and>
     sint (evict_cnt st) \<le> sint (miss_cnt st) \<and>
     sint (hit_cnt st) + sint (miss_cnt st) + 1 = sint (counter st)"

text \<open>
  A state of the simulation: the cache has the shape \<open>init_cache\<close> gave it, the counters
  agree with the clock, and the valid lines carry pairwise different stamps, all from
  before the clock's value. \<open>init_cache\<close> establishes it (\<open>init_sim_inv\<close> below) and an access
  keeps it as long as the clock is below \<open>INT_MAX\<close> (\<open>access_data_inv\<close>).
\<close>

definition sim_inv :: "nat \<Rightarrow> nat \<Rightarrow> sim \<Rightarrow> bool" where
  "sim_inv s E st \<longleftrightarrow>
     cache_shape s E (cache st) \<and> counters_ok st \<and> clock_unique (cache st) \<and>
     (\<forall>i<length (cache st). \<forall>j<length (cache st ! i). line_ok (counter st) (cache st ! i ! j))"

text \<open>
  The number of accesses a record stands for, in the words of the specification: a load
  or a store is one access, a modify is two, any other kind of record is none.
\<close>

definition rec_accesses :: "trace_rec \<Rightarrow> nat" where
  "rec_accesses r =
     (if fst r = CHR ''M'' then 2
      else if fst r = CHR ''L'' \<or> fst r = CHR ''S'' then 1
      else 0)"

definition trace_accesses :: "trace_rec list \<Rightarrow> nat" where
  "trace_accesses rs = sum_list (map rec_accesses rs)"

text \<open>Line \<open>j\<close> of set \<open>i\<close> is valid and holds the tag: the test of the first loop.\<close>

definition line_hits :: "cache_t \<Rightarrow> nat \<Rightarrow> mem_addr_t \<Rightarrow> nat \<Rightarrow> bool" where
  "line_hits c i tg j \<longleftrightarrow> tag (c ! i ! j) = tg \<and> valid (c ! i ! j) = CHR ''1''"

text \<open>No statistics counter of \<open>st'\<close> is below its value in \<open>st\<close>.\<close>

definition counters_le :: "sim \<Rightarrow> sim \<Rightarrow> bool" where
  "counters_le st st' \<longleftrightarrow>
     sint (hit_cnt st) \<le> sint (hit_cnt st') \<and> sint (miss_cnt st) \<le> sint (miss_cnt st') \<and>
     sint (evict_cnt st) \<le> sint (evict_cnt st')"

text \<open>
  After \<open>n\<close> accesses: no counter is negative, evictions are at most the misses, and
  hits plus misses is \<open>n\<close>.
\<close>

definition tally :: "nat \<Rightarrow> sim \<Rightarrow> bool" where
  "tally n st \<longleftrightarrow>
     0 \<le> sint (hit_cnt st) \<and> 0 \<le> sint (evict_cnt st) \<and>
     sint (evict_cnt st) \<le> sint (miss_cnt st) \<and>
     sint (hit_cnt st) + sint (miss_cnt st) = int n"

section \<open>Properties of the two loops\<close>

lemma hit_scan_end: "\<not> line < E \<Longrightarrow> hit_scan E c i tg line = Inr None"
  by (subst hit_scan.simps) simp

lemma hit_scan_oob:
  "line < E \<Longrightarrow> \<not> (i < length c \<and> line < length (c ! i)) \<Longrightarrow>
   hit_scan E c i tg line = Inl OutOfBounds"
  by (subst hit_scan.simps) (auto simp add: line_at_def)

lemma hit_scan_step:
  "line < E \<Longrightarrow> i < length c \<Longrightarrow> line < length (c ! i) \<Longrightarrow>
   hit_scan E c i tg line =
     (if line_hits c i tg line then Inr (Some line) else hit_scan E c i tg (Suc line))"
  by (subst hit_scan.simps) (simp add: line_at_def line_hits_def)

lemma hit_scan_None:
  assumes "i < length c" "E \<le> length (c ! i)"
    and "\<forall>j. k \<le> j \<and> j < E \<longrightarrow> \<not> line_hits c i tg j"
  shows "hit_scan E c i tg k = Inr None"
  using assms
proof (induction "E - k" arbitrary: k)
  case 0
  then show ?case by (simp add: hit_scan_end)
next
  case (Suc n)
  then have "k < E" "\<not> line_hits c i tg k" by auto
  moreover have "hit_scan E c i tg (Suc k) = Inr None"
    using Suc by (intro Suc.hyps(1)) auto
  ultimately show ?case using Suc.prems by (simp add: hit_scan_step)
qed

lemma hit_scan_Some:
  assumes "i < length c" "E \<le> length (c ! i)" "k \<le> j" "j < E" "line_hits c i tg j"
    and "\<forall>j'. k \<le> j' \<and> j' < j \<longrightarrow> \<not> line_hits c i tg j'"
  shows "hit_scan E c i tg k = Inr (Some j)"
  using assms
proof (induction "j - k" arbitrary: k)
  case 0
  then have "k = j" by simp
  with 0 show ?case by (simp add: hit_scan_step)
next
  case (Suc n)
  then have "k < j" "k < E" "\<not> line_hits c i tg k" by auto
  moreover have "hit_scan E c i tg (Suc k) = Inr (Some j)"
    using Suc by (intro Suc.hyps(1)) auto
  ultimately show ?case using Suc.prems by (simp add: hit_scan_step)
qed

lemma hit_scan_SomeD:
  assumes "hit_scan E c i tg k = Inr (Some j)"
  shows "k \<le> j \<and> j < E \<and> i < length c \<and> j < length (c ! i) \<and> line_hits c i tg j \<and>
         (\<forall>j'. k \<le> j' \<and> j' < j \<longrightarrow> \<not> line_hits c i tg j')"
  using assms
proof (induction "E - k" arbitrary: k)
  case 0
  then show ?case by (simp add: hit_scan_end)
next
  case (Suc n)
  then have lt: "k < E" by simp
  have inb: "i < length c \<and> k < length (c ! i)"
    using Suc.prems lt hit_scan_oob[of k E i c tg] by auto
  show ?case
  proof (cases "line_hits c i tg k")
    case True
    with Suc.prems lt inb have "j = k" by (simp add: hit_scan_step)
    with True lt inb show ?thesis by auto
  next
    case False
    with Suc.prems lt inb have rec: "hit_scan E c i tg (Suc k) = Inr (Some j)"
      by (simp add: hit_scan_step)
    have IH: "Suc k \<le> j \<and> j < E \<and> i < length c \<and> j < length (c ! i) \<and> line_hits c i tg j \<and>
         (\<forall>j'. Suc k \<le> j' \<and> j' < j \<longrightarrow> \<not> line_hits c i tg j')"
      using Suc.hyps(2) rec by (intro Suc.hyps(1)) auto
    show ?thesis
    proof (intro conjI allI impI)
      fix j' assume "k \<le> j' \<and> j' < j"
      then show "\<not> line_hits c i tg j'" using IH False by (cases "j' = k") auto
    qed (use IH in auto)
  qed
qed

lemma victim_scan_end: "\<not> line < E \<Longrightarrow> victim_scan E c i line ev m = Inr (None, ev)"
  by (subst victim_scan.simps) simp

lemma victim_scan_oob:
  "line < E \<Longrightarrow> \<not> (i < length c \<and> line < length (c ! i)) \<Longrightarrow>
   victim_scan E c i line ev m = Inl OutOfBounds"
  by (subst victim_scan.simps) (auto simp add: line_at_def)

lemma victim_scan_step:
  "line < E \<Longrightarrow> i < length c \<Longrightarrow> line < length (c ! i) \<Longrightarrow>
   victim_scan E c i line ev m =
     (if valid (c ! i ! line) = CHR ''0'' then Inr (Some line, ev)
      else if count (c ! i ! line) <s m
        then victim_scan E c i (Suc line) (Some line) (count (c ! i ! line))
        else victim_scan E c i (Suc line) ev m)"
  by (subst victim_scan.simps) (simp add: line_at_def)

lemma victim_scan_free:
  assumes "i < length c" "E \<le> length (c ! i)" "k \<le> j" "j < E"
    and "valid (c ! i ! j) = CHR ''0''"
    and "\<forall>j'. k \<le> j' \<and> j' < j \<longrightarrow> valid (c ! i ! j') \<noteq> CHR ''0''"
  shows "\<exists>ev'. victim_scan E c i k ev m = Inr (Some j, ev')"
  using assms
proof (induction "j - k" arbitrary: k ev m)
  case 0
  then have "k = j" by simp
  with 0 show ?case by (simp add: victim_scan_step)
next
  case (Suc n)
  then have k: "k < j" "k < E" "k < length (c ! i)" "valid (c ! i ! k) \<noteq> CHR ''0''" by auto
  have rec: "\<exists>ev'. victim_scan E c i (Suc k) ev2 m2 = Inr (Some j, ev')" for ev2 m2
    using Suc by (intro Suc.hyps(1)) auto
  show ?case using k Suc.prems(1) rec by (simp add: victim_scan_step)
qed

lemma victim_scan_full:
  assumes "i < length c" "E \<le> length (c ! i)"
    and "\<forall>j. k \<le> j \<and> j < E \<longrightarrow> valid (c ! i ! j) \<noteq> CHR ''0''"
  shows "\<exists>ev'. victim_scan E c i k ev m = Inr (None, ev') \<and>
           ((ev' = ev \<and> (\<forall>j. k \<le> j \<and> j < E \<longrightarrow> \<not> count (c ! i ! j) <s m)) \<or>
            (\<exists>j. ev' = Some j \<and> k \<le> j \<and> j < E \<and> count (c ! i ! j) <s m \<and>
                 (\<forall>j'. k \<le> j' \<and> j' < E \<longrightarrow> count (c ! i ! j) \<le>s count (c ! i ! j')) \<and>
                 (\<forall>j'. k \<le> j' \<and> j' < j \<longrightarrow> count (c ! i ! j) <s count (c ! i ! j'))))"
  using assms
proof (induction "E - k" arbitrary: k ev m)
  case 0
  then show ?case by (auto simp add: victim_scan_end)
next
  case (Suc n)
  then have k: "k < E" "k < length (c ! i)" "valid (c ! i ! k) \<noteq> CHR ''0''" by auto
  define x where "x = count (c ! i ! k)"
  have IH: "\<exists>ev'. victim_scan E c i (Suc k) ev2 m2 = Inr (None, ev') \<and>
           ((ev' = ev2 \<and> (\<forall>j. Suc k \<le> j \<and> j < E \<longrightarrow> \<not> count (c ! i ! j) <s m2)) \<or>
            (\<exists>j. ev' = Some j \<and> Suc k \<le> j \<and> j < E \<and> count (c ! i ! j) <s m2 \<and>
                 (\<forall>j'. Suc k \<le> j' \<and> j' < E \<longrightarrow> count (c ! i ! j) \<le>s count (c ! i ! j')) \<and>
                 (\<forall>j'. Suc k \<le> j' \<and> j' < j \<longrightarrow> count (c ! i ! j) <s count (c ! i ! j'))))"
    for ev2 m2
    using Suc by (intro Suc.hyps(1)) auto
  have range: "(k \<le> j' \<and> j' < u) = (j' = k \<and> k < u \<or> Suc k \<le> j' \<and> j' < u)" for j' u
    by auto
  show ?case
  proof (cases "x <s m")
    case True
    have step: "victim_scan E c i k ev m = victim_scan E c i (Suc k) (Some k) x"
      using k Suc.prems(1) True by (simp add: victim_scan_step x_def)
    from IH[of "Some k" x] obtain ev' where
      r: "victim_scan E c i (Suc k) (Some k) x = Inr (None, ev')" and
      d: "(ev' = Some k \<and> (\<forall>j. Suc k \<le> j \<and> j < E \<longrightarrow> \<not> count (c ! i ! j) <s x)) \<or>
            (\<exists>j. ev' = Some j \<and> Suc k \<le> j \<and> j < E \<and> count (c ! i ! j) <s x \<and>
                 (\<forall>j'. Suc k \<le> j' \<and> j' < E \<longrightarrow> count (c ! i ! j) \<le>s count (c ! i ! j')) \<and>
                 (\<forall>j'. Suc k \<le> j' \<and> j' < j \<longrightarrow> count (c ! i ! j) <s count (c ! i ! j')))"
      by blast
    from d show ?thesis
    proof
      assume a: "ev' = Some k \<and> (\<forall>j. Suc k \<le> j \<and> j < E \<longrightarrow> \<not> count (c ! i ! j) <s x)"
      have "\<forall>j'. k \<le> j' \<and> j' < E \<longrightarrow> count (c ! i ! k) \<le>s count (c ! i ! j')"
        using a by (auto simp add: range x_def word_sless_alt word_sle_eq)
      with a True k show ?thesis
        unfolding step r by (intro exI[of _ ev'] conjI refl disjI2 exI[of _ k]) (auto simp: x_def)
    next
      assume "\<exists>j. ev' = Some j \<and> Suc k \<le> j \<and> j < E \<and> count (c ! i ! j) <s x \<and>
                 (\<forall>j'. Suc k \<le> j' \<and> j' < E \<longrightarrow> count (c ! i ! j) \<le>s count (c ! i ! j')) \<and>
                 (\<forall>j'. Suc k \<le> j' \<and> j' < j \<longrightarrow> count (c ! i ! j) <s count (c ! i ! j'))"
      then obtain j where j: "ev' = Some j" "Suc k \<le> j" "j < E" "count (c ! i ! j) <s x"
         "\<forall>j'. Suc k \<le> j' \<and> j' < E \<longrightarrow> count (c ! i ! j) \<le>s count (c ! i ! j')"
         "\<forall>j'. Suc k \<le> j' \<and> j' < j \<longrightarrow> count (c ! i ! j) <s count (c ! i ! j')"
        by blast
      have 1: "count (c ! i ! j) <s m" using j(4) True by (simp add: word_sless_alt)
      have 2: "\<forall>j'. k \<le> j' \<and> j' < E \<longrightarrow> count (c ! i ! j) \<le>s count (c ! i ! j')"
        using j(4,5) by (auto simp add: range x_def word_sless_alt word_sle_eq)
      have 3: "\<forall>j'. k \<le> j' \<and> j' < j \<longrightarrow> count (c ! i ! j) <s count (c ! i ! j')"
        using j(4,6) by (auto simp add: range x_def)
      show ?thesis
        unfolding step r using j(1,2,3) 1 2 3
        by (intro exI[of _ ev'] conjI refl disjI2 exI[of _ j]) auto
    qed
  next
    case False
    have step: "victim_scan E c i k ev m = victim_scan E c i (Suc k) ev m"
      using k Suc.prems(1) False by (simp add: victim_scan_step x_def)
    from IH[of ev m] obtain ev' where
      r: "victim_scan E c i (Suc k) ev m = Inr (None, ev')" and
      d: "(ev' = ev \<and> (\<forall>j. Suc k \<le> j \<and> j < E \<longrightarrow> \<not> count (c ! i ! j) <s m)) \<or>
            (\<exists>j. ev' = Some j \<and> Suc k \<le> j \<and> j < E \<and> count (c ! i ! j) <s m \<and>
                 (\<forall>j'. Suc k \<le> j' \<and> j' < E \<longrightarrow> count (c ! i ! j) \<le>s count (c ! i ! j')) \<and>
                 (\<forall>j'. Suc k \<le> j' \<and> j' < j \<longrightarrow> count (c ! i ! j) <s count (c ! i ! j')))"
      by blast
    from d show ?thesis
    proof
      assume a: "ev' = ev \<and> (\<forall>j. Suc k \<le> j \<and> j < E \<longrightarrow> \<not> count (c ! i ! j) <s m)"
      have "\<forall>j. k \<le> j \<and> j < E \<longrightarrow> \<not> count (c ! i ! j) <s m"
        using a False by (auto simp add: range x_def)
      with a show ?thesis unfolding step r by auto
    next
      assume "\<exists>j. ev' = Some j \<and> Suc k \<le> j \<and> j < E \<and> count (c ! i ! j) <s m \<and>
                 (\<forall>j'. Suc k \<le> j' \<and> j' < E \<longrightarrow> count (c ! i ! j) \<le>s count (c ! i ! j')) \<and>
                 (\<forall>j'. Suc k \<le> j' \<and> j' < j \<longrightarrow> count (c ! i ! j) <s count (c ! i ! j'))"
      then obtain j where j: "ev' = Some j" "Suc k \<le> j" "j < E" "count (c ! i ! j) <s m"
         "\<forall>j'. Suc k \<le> j' \<and> j' < E \<longrightarrow> count (c ! i ! j) \<le>s count (c ! i ! j')"
         "\<forall>j'. Suc k \<le> j' \<and> j' < j \<longrightarrow> count (c ! i ! j) <s count (c ! i ! j')"
        by blast
      have lt: "count (c ! i ! j) <s x" using j(4) False by (simp add: word_sless_alt)
      have 2: "\<forall>j'. k \<le> j' \<and> j' < E \<longrightarrow> count (c ! i ! j) \<le>s count (c ! i ! j')"
        using lt j(5) by (auto simp add: range x_def word_sless_alt word_sle_eq)
      have 3: "\<forall>j'. k \<le> j' \<and> j' < j \<longrightarrow> count (c ! i ! j) <s count (c ! i ! j')"
        using lt j(6) by (auto simp add: range x_def)
      show ?thesis
        unfolding step r using j(1,2,3,4) 2 3
        by (intro exI[of _ ev'] conjI refl disjI2 exI[of _ j]) auto
    qed
  qed
qed

lemma victim_scan_D:
  assumes "victim_scan E c i k ev m = Inr (fr, ev')"
  shows "(\<forall>j. fr = Some j \<longrightarrow> k \<le> j \<and> j < E \<and> i < length c \<and> j < length (c ! i)) \<and>
         (\<forall>j. ev' = Some j \<longrightarrow> ev = Some j \<or> (k \<le> j \<and> j < E \<and> i < length c \<and> j < length (c ! i)))"
  using assms
proof (induction "E - k" arbitrary: k ev m)
  case 0
  then show ?case by (simp add: victim_scan_end)
next
  case (Suc n)
  then have lt: "k < E" by simp
  have inb: "i < length c \<and> k < length (c ! i)"
    using Suc.prems lt victim_scan_oob[of k E i c ev m] by auto
  have IH: "victim_scan E c i (Suc k) ev2 m2 = Inr (fr, ev') \<Longrightarrow>
      (\<forall>j. fr = Some j \<longrightarrow> Suc k \<le> j \<and> j < E \<and> i < length c \<and> j < length (c ! i)) \<and>
      (\<forall>j. ev' = Some j \<longrightarrow> ev2 = Some j \<or> (Suc k \<le> j \<and> j < E \<and> i < length c \<and> j < length (c ! i)))"
    for ev2 m2
    using Suc.hyps(2) by (intro Suc.hyps(1)) auto
  consider (free) "valid (c ! i ! k) = CHR ''0''"
    | (less) "valid (c ! i ! k) \<noteq> CHR ''0''" "count (c ! i ! k) <s m"
    | (geq) "valid (c ! i ! k) \<noteq> CHR ''0''" "\<not> count (c ! i ! k) <s m"
    by blast
  then show ?case
  proof cases
    case free
    with Suc.prems lt inb show ?thesis by (auto simp add: victim_scan_step)
  next
    case less
    with Suc.prems lt inb
    have "victim_scan E c i (Suc k) (Some k) (count (c ! i ! k)) = Inr (fr, ev')"
      by (simp add: victim_scan_step)
    from IH[OF this] lt inb show ?thesis by auto
  next
    case geq
    with Suc.prems lt inb have "victim_scan E c i (Suc k) ev m = Inr (fr, ev')"
      by (simp add: victim_scan_step)
    from IH[OF this] show ?thesis by auto
  qed
qed

section \<open>Machine integers, the set index and line updates\<close>

lemma sint_succ32: "sint (x :: 32 word) < 2147483647 \<Longrightarrow> sint (x + 1) = sint x + 1"
  using sint_ge[of x] 
  by (simp add: sint_word_ariths signed_take_bit_int_eq_self)


lemma sint_INT_MAX: "sint INT_MAX = 2147483647"
  by (simp add: INT_MAX_def)

lemma sint_le_INT_MAX: "sint (x :: 32 word) \<le> 2147483647"
  using sint_lt[of x] by simp

lemma addr_set_less: "unat (addr_set b s addr) < 2 ^ s"
  by (simp add: addr_set_def sBitMask_def unsigned_take_bit_eq
      flip: mask_eq_exp_minus_1 take_bit_eq_mask)

lemma length_set_line [simp]: "length (set_line c i j ln) = length c"
  by (simp add: set_line_def)

lemma length_set_line_nth [simp]: "length (set_line c i j ln ! i') = length (c ! i')"
  by (cases "i < length c"; cases "i' = i") (simp_all add: set_line_def list_update_beyond)

lemma nth_set_line:
  "i' < length c \<Longrightarrow> j' < length (c ! i') \<Longrightarrow>
   set_line c i j ln ! i' ! j' = (if i' = i \<and> j' = j then ln else c ! i' ! j')"
  by (cases "i' = i"; cases "j' = j") (simp_all add: set_line_def)

lemma first_index:
  assumes "j < (E::nat)" "P j"
  obtains j0 where "j0 < E" "P j0" "\<forall>j'<j0. \<not> P j'"
proof -
  from assms(2) obtain j0 where "P j0" "\<forall>j'<j0. \<not> P j'"
    using exists_least_iff[of P] by blast
  moreover have "j0 \<le> j" using \<open>\<forall>j'<j0. \<not> P j'\<close> assms(2) by (meson not_le)
  then have "j0 < E" using assms(1) by simp
  ultimately show ?thesis using that by blast
qed



section \<open>What an access does\<close>

lemma access_hit:
  assumes "shifts_defined b s" 
    and "i = unat (addr_set b s addr)" "tg = addr_tag b s addr"
    and "i < length (cache st)" "E \<le> length (cache st ! i)"
    and "j < E" "line_hits (cache st) i tg j" "\<forall>j'<j. \<not> line_hits (cache st) i tg j'"
  shows "access_data b s E st addr = Inr (Hit, on_hit st i j)"
proof -
  have "hit_scan E (cache st) i tg 0 = Inr (Some j)"
    using assms by (intro hit_scan_Some) auto
  then show ?thesis using assms(1-3) by (simp add: access_data_def)
qed

lemma access_miss_free:
  assumes "shifts_defined b s" 
    and "i = unat (addr_set b s addr)" "tg = addr_tag b s addr"
    and "i < length (cache st)" "E \<le> length (cache st ! i)"
    and "\<forall>j<E. \<not> line_hits (cache st) i tg j"
    and "j < E" "valid (cache st ! i ! j) = CHR ''0''"
    and "\<forall>j'<j. valid (cache st ! i ! j') \<noteq> CHR ''0''"
  shows "access_data b s E st addr =
           Inr (Miss, fill_line (st\<lparr>miss_cnt := miss_cnt st + 1\<rparr>) i j tg)"
proof -
  have "hit_scan E (cache st) i tg 0 = Inr None"
    using assms by (intro hit_scan_None) auto
  moreover have "\<exists>ev. victim_scan E (cache st) i 0 None INT_MAX = Inr (Some j, ev)"
    using assms(4,5,7,8,9) by (intro victim_scan_free) auto
  then obtain ev where
    "victim_scan E (cache st) i 0 None INT_MAX = Inr (Some j, ev)" ..
  ultimately show ?thesis using assms(1-3) by (simp add: access_data_def on_miss_def)
qed

lemma access_miss_full:
  assumes "shifts_defined b s" 
    and "i = unat (addr_set b s addr)" "tg = addr_tag b s addr"
    and "i < length (cache st)" "E \<le> length (cache st ! i)"
    and "\<forall>j<E. \<not> line_hits (cache st) i tg j"
    and "\<forall>j<E. valid (cache st ! i ! j) \<noteq> CHR ''0''"
  shows "((\<forall>j<E. \<not> count (cache st ! i ! j) <s INT_MAX) \<and>
          access_data b s E st addr = Inr (MissNoLine, st\<lparr>miss_cnt := miss_cnt st + 1\<rparr>)) \<or>
         (\<exists>j<E. count (cache st ! i ! j) <s INT_MAX \<and>
            (\<forall>j'<E. count (cache st ! i ! j) \<le>s count (cache st ! i ! j')) \<and>
            (\<forall>j'<j. count (cache st ! i ! j) <s count (cache st ! i ! j')) \<and>
            access_data b s E st addr =
              Inr (MissEvict,
                fill_line (st\<lparr>miss_cnt := miss_cnt st + 1, evict_cnt := evict_cnt st + 1\<rparr>) i j tg))"
proof -
  have h: "hit_scan E (cache st) i tg 0 = Inr None"
    using assms by (intro hit_scan_None) auto
  have "\<forall>j. 0 \<le> j \<and> j < E \<longrightarrow> valid (cache st ! i ! j) \<noteq> CHR ''0''"
    using assms(7) by simp
  from victim_scan_full[OF assms(4,5) this, of None INT_MAX]
  obtain ev' where
    v: "victim_scan E (cache st) i 0 None INT_MAX = Inr (None, ev')" and
    d: "(ev' = None \<and> (\<forall>j. j < E \<longrightarrow> \<not> count (cache st ! i ! j) <s INT_MAX)) \<or>
        (\<exists>j. ev' = Some j \<and> j < E \<and> count (cache st ! i ! j) <s INT_MAX \<and>
           (\<forall>j'. j' < E \<longrightarrow> count (cache st ! i ! j) \<le>s count (cache st ! i ! j')) \<and>
           (\<forall>j'. j' < j \<longrightarrow> count (cache st ! i ! j) <s count (cache st ! i ! j')))"
    by auto
  from d show ?thesis
  proof
    assume "ev' = None \<and> (\<forall>j. j < E \<longrightarrow> \<not> count (cache st ! i ! j) <s INT_MAX)"
    then show ?thesis using h v assms(1-3)
      by (intro disjI1) (simp add: access_data_def on_miss_def)
  next
    assume "\<exists>j. ev' = Some j \<and> j < E \<and> count (cache st ! i ! j) <s INT_MAX \<and>
           (\<forall>j'. j' < E \<longrightarrow> count (cache st ! i ! j) \<le>s count (cache st ! i ! j')) \<and>
           (\<forall>j'. j' < j \<longrightarrow> count (cache st ! i ! j) <s count (cache st ! i ! j'))"
    then obtain j where j: "ev' = Some j" "j < E" "count (cache st ! i ! j) <s INT_MAX"
       "\<forall>j'<E. count (cache st ! i ! j) \<le>s count (cache st ! i ! j')"
       "\<forall>j'<j. count (cache st ! i ! j) <s count (cache st ! i ! j')"
      by blast
    have "access_data b s E st addr =
              Inr (MissEvict,
                fill_line (st\<lparr>miss_cnt := miss_cnt st + 1, evict_cnt := evict_cnt st + 1\<rparr>) i j tg)"
      using h v j(1) assms(1-3) by (simp add: access_data_def on_miss_def)
    with j show ?thesis by (intro disjI2) blast
  qed
qed

lemma access_data_results:
  assumes a: "access_data b s E st addr = Inr (out, st')"
    and i: "i = unat (addr_set b s addr)" and tg: "tg = addr_tag b s addr"
  shows "shifts_defined b s \<and>
    ((out = Hit \<and> (\<exists>j<E. i < length (cache st) \<and> j < length (cache st ! i) \<and>
         line_hits (cache st) i tg j \<and> st' = on_hit st i j)) \<or>
     (out = Miss \<and> (\<exists>j<E. i < length (cache st) \<and> j < length (cache st ! i) \<and>
         st' = fill_line (st\<lparr>miss_cnt := miss_cnt st + 1\<rparr>) i j tg)) \<or>
     (out = MissEvict \<and> (\<exists>j<E. i < length (cache st) \<and> j < length (cache st ! i) \<and>
         st' = fill_line (st\<lparr>miss_cnt := miss_cnt st + 1, evict_cnt := evict_cnt st + 1\<rparr>) i j tg)) \<or>
     (out = MissNoLine \<and> st' = st\<lparr>miss_cnt := miss_cnt st + 1\<rparr>))"
proof -
  have sd: "shifts_defined b s" using a by (simp add: access_data_def split: if_splits)
  obtain h where h: "hit_scan E (cache st) i tg 0 = Inr h"
    using a sd i tg by (cases "hit_scan E (cache st) i tg 0") (simp_all add: access_data_def)
  show ?thesis
  proof (cases h)
    case (Some j)
    from hit_scan_SomeD[OF h[unfolded Some]]
    have "j < E" "i < length (cache st)" "j < length (cache st ! i)" "line_hits (cache st) i tg j"
      by simp_all
    moreover have "out = Hit" "st' = on_hit st i j"
      using a sd h Some i tg by (simp_all add: access_data_def)
    ultimately show ?thesis using sd by blast
  next
    case None
    let ?st1 = "st\<lparr>miss_cnt := miss_cnt st + 1\<rparr>"
    have m: "on_miss E ?st1 i tg = Inr (out, st')"
      using a sd h None i tg by (simp add: access_data_def)
    obtain fr ev where v: "victim_scan E (cache st) i 0 None INT_MAX = Inr (fr, ev)"
      using m by (cases "victim_scan E (cache st) i 0 None INT_MAX") (auto simp add: on_miss_def)
    note D = victim_scan_D[OF v]
    show ?thesis
    proof (cases fr)
      case (Some j)
      with D have "j < E" "i < length (cache st)" "j < length (cache st ! i)" by simp_all
      moreover have "out = Miss" "st' = fill_line ?st1 i j tg"
        using m v Some by (simp_all add: on_miss_def)
      ultimately show ?thesis using sd by blast
    next
      case None
      show ?thesis
      proof (cases ev)
        case (Some j)
        with D have "j < E" "i < length (cache st)" "j < length (cache st ! i)" by simp_all
        moreover have "out = MissEvict"
          "st' = fill_line (st\<lparr>miss_cnt := miss_cnt st + 1, evict_cnt := evict_cnt st + 1\<rparr>) i j tg"
          using m v None Some by (simp_all add: on_miss_def)
        ultimately show ?thesis using sd by blast
      next
        case ev_None: None
        have "out = MissNoLine" "st' = ?st1"
          using m v None ev_None by (simp_all add: on_miss_def)
        then show ?thesis using sd by blast
      qed
    qed
  qed
qed

lemma access_data_total:
  assumes sd: "shifts_defined b s"
    and il: "unat (addr_set b s addr) < length (cache st)"
    and El: "E \<le> length (cache st ! unat (addr_set b s addr))"
  shows "\<exists>out st'. access_data b s E st addr = Inr (out, st')"
proof -
  define i where "i = unat (addr_set b s addr)"
  define tg where "tg = addr_tag b s addr"
  note il' = il[folded i_def] and El' = El[folded i_def]
  show ?thesis
  proof (cases "\<exists>j<E. line_hits (cache st) i tg j")
    case True
    then obtain j1 where "j1 < E" "line_hits (cache st) i tg j1" by blast
    then obtain j where j: "j < E" "line_hits (cache st) i tg j"
      "\<forall>j'<j. \<not> line_hits (cache st) i tg j'"
      by (rule first_index)
    from access_hit[OF sd i_def tg_def il' El' j] show ?thesis by blast
  next
    case False
    then have nh: "\<forall>j<E. \<not> line_hits (cache st) i tg j" by blast
    show ?thesis
    proof (cases "\<exists>j<E. valid (cache st ! i ! j) = CHR ''0''")
      case True
      then obtain j1 where "j1 < E" "valid (cache st ! i ! j1) = CHR ''0''" by blast
      then obtain j where j: "j < E" "valid (cache st ! i ! j) = CHR ''0''"
        "\<forall>j'<j. \<not> valid (cache st ! i ! j') = CHR ''0''"
        by (rule first_index)
      from access_miss_free[OF sd i_def tg_def il' El' nh j] show ?thesis by blast
    next
      case False
      then have nf: "\<forall>j<E. valid (cache st ! i ! j) \<noteq> CHR ''0''" by blast
      from access_miss_full[OF sd i_def tg_def il' El' nh nf] show ?thesis by blast
    qed
  qed
qed

lemma geom_ok_shifts: "geom_ok b s E \<Longrightarrow> shifts_defined b s"
  by (simp add: geom_ok_def shifts_defined_def)

lemma sim_inv_set_in_range:
  assumes "sim_inv s E st"
  shows "unat (addr_set b s addr) < length (cache st)"
    and "length (cache st ! unat (addr_set b s addr)) = E"
  using assms addr_set_less[of b s addr] by (simp_all add: sim_inv_def cache_shape_def)

lemma sim_inv_line_ok:
  "sim_inv s E st \<Longrightarrow> i < length (cache st) \<Longrightarrow> j < length (cache st ! i) \<Longrightarrow>
   line_ok (counter st) (cache st ! i ! j)"
  by (simp add: sim_inv_def)

lemma access_data_cases:
  assumes g: "geom_ok b s E" and inv: "sim_inv s E st"
    and i: "i = unat (addr_set b s addr)" and tg: "tg = addr_tag b s addr"
  obtains
    (hit) j where "j < E" "line_hits (cache st) i tg j"
      "\<forall>j'<j. \<not> line_hits (cache st) i tg j'"
      "access_data b s E st addr = Inr (Hit, on_hit st i j)"
  | (fill) j where "j < E" "\<forall>j'<E. \<not> line_hits (cache st) i tg j'"
      "valid (cache st ! i ! j) = CHR ''0''"
      "\<forall>j'<j. valid (cache st ! i ! j') \<noteq> CHR ''0''"
      "access_data b s E st addr =
         Inr (Miss, fill_line (st\<lparr>miss_cnt := miss_cnt st + 1\<rparr>) i j tg)"
  | (evict) j where "j < E" "\<forall>j'<E. \<not> line_hits (cache st) i tg j'"
      "\<forall>j'<E. valid (cache st ! i ! j') = CHR ''1''"
      "\<forall>j'<E. j' \<noteq> j \<longrightarrow> count (cache st ! i ! j) <s count (cache st ! i ! j')"
      "access_data b s E st addr =
         Inr (MissEvict,
           fill_line (st\<lparr>miss_cnt := miss_cnt st + 1, evict_cnt := evict_cnt st + 1\<rparr>) i j tg)"
proof -
  have sd: "shifts_defined b s" using g by (rule geom_ok_shifts)
  have il: "i < length (cache st)" and rl: "length (cache st ! i) = E"
    using sim_inv_set_in_range[OF inv, of b addr] i by simp_all
  have El: "E \<le> length (cache st ! i)" using rl by simp
  show ?thesis
  proof (cases "\<exists>j<E. line_hits (cache st) i tg j")
    case True
    then obtain j1 where "j1 < E" "line_hits (cache st) i tg j1" by blast
    then obtain j where j: "j < E" "line_hits (cache st) i tg j"
      "\<forall>j'<j. \<not> line_hits (cache st) i tg j'"
      by (rule first_index)
    from access_hit[OF sd i tg il El j] j show ?thesis by (rule_tac hit)
  next
    case False
    then have nh: "\<forall>j<E. \<not> line_hits (cache st) i tg j" by blast
    show ?thesis
    proof (cases "\<exists>j<E. valid (cache st ! i ! j) = CHR ''0''")
      case True
      then obtain j1 where "j1 < E" "valid (cache st ! i ! j1) = CHR ''0''" by blast
      then obtain j where j: "j < E" "valid (cache st ! i ! j) = CHR ''0''"
        "\<forall>j'<j. \<not> valid (cache st ! i ! j') = CHR ''0''"
        by (rule first_index)
      from access_miss_free[OF sd i tg il El nh j] j nh show ?thesis by (rule_tac fill)
    next
      case False
      then have nf: "\<forall>j<E. valid (cache st ! i ! j) \<noteq> CHR ''0''" by blast
      have lok: "line_ok (counter st) (cache st ! i ! j)" if "j < E" for j
        using sim_inv_line_ok[OF inv il, of j] that rl by simp
      have allv: "\<forall>j<E. valid (cache st ! i ! j) = CHR ''1''"
        using nf lok by (auto simp add: line_ok_def)
      have small: "count (cache st ! i ! j) <s INT_MAX" if "j < E" for j
        using lok[OF that] allv that sint_le_INT_MAX[of "counter st"]
        by (simp add: line_ok_def word_sless_alt sint_INT_MAX)
      have "0 < E" using g by (simp add: geom_ok_def)
      with small have "\<not> (\<forall>j<E. \<not> count (cache st ! i ! j) <s INT_MAX)" by blast
      with access_miss_full[OF sd i tg il El nh nf]
      obtain j where j: "j < E"
        "\<forall>j'<E. count (cache st ! i ! j) \<le>s count (cache st ! i ! j')"
        "access_data b s E st addr =
              Inr (MissEvict,
                fill_line (st\<lparr>miss_cnt := miss_cnt st + 1, evict_cnt := evict_cnt st + 1\<rparr>) i j tg)"
        by blast
      have cu: "clock_unique (cache st)" using inv by (simp add: sim_inv_def)
      have "count (cache st ! i ! j) <s count (cache st ! i ! j')" if "j' < E" "j' \<noteq> j" for j'
      proof -
        have "count (cache st ! i ! j) \<noteq> count (cache st ! i ! j')"
          using cu il rl j(1) that allv unfolding clock_unique_def by blast
        with j(2) that(1) show ?thesis by (simp add: signed.less_le)
      qed
      with j(1,3) nh allv show ?thesis by (rule_tac evict) auto
    qed
  qed
qed

lemma access_data_touch:
  assumes g: "geom_ok b s E" and inv: "sim_inv s E st"
    and i: "i = unat (addr_set b s addr)" and tg: "tg = addr_tag b s addr"
  shows "\<exists>out st' j. access_data b s E st addr = Inr (out, st') \<and> j < E \<and>
           cache st' = set_line (cache st) i j \<lparr>valid = CHR ''1'', tag = tg, count = counter st\<rparr> \<and>
           counter st' = counter st + 1 \<and>
           (if \<exists>j<E. line_hits (cache st) i tg j
            then out = Hit \<and> hit_cnt st' = hit_cnt st + 1 \<and> miss_cnt st' = miss_cnt st \<and>
                 evict_cnt st' = evict_cnt st
            else (out = Miss \<or> out = MissEvict) \<and> hit_cnt st' = hit_cnt st \<and>
                 miss_cnt st' = miss_cnt st + 1)"
  using g inv i tg
proof (cases rule: access_data_cases)
  case (hit j)
  have "(cache st ! i ! j)\<lparr>count := counter st\<rparr> =
        \<lparr>valid = CHR ''1'', tag = tg, count = counter st\<rparr>"
    using hit(2) by (cases "cache st ! i ! j") (simp add: line_hits_def)
  with hit show ?thesis
    by (intro exI[of _ Hit] exI[of _ "on_hit st i j"] exI[of _ j]) (auto simp add: on_hit_def)
next
  case (fill j)
  then show ?thesis
    by (intro exI[of _ Miss] exI[of _ "fill_line (st\<lparr>miss_cnt := miss_cnt st + 1\<rparr>) i j tg"]
        exI[of _ j]) (auto simp add: fill_line_def)
next
  case (evict j)
  then show ?thesis
    by (intro exI[of _ MissEvict] exI[of _ j]
        exI[of _ "fill_line (st\<lparr>miss_cnt := miss_cnt st + 1, evict_cnt := evict_cnt st + 1\<rparr>) i j tg"])
       (auto simp add: fill_line_def)
qed

section \<open>The invariant is established and preserved\<close>

lemma stamp_line_shape:
  "cache_shape s E c \<Longrightarrow> cache_shape s E (set_line c i j ln)"
  by (simp add: cache_shape_def)

lemma stamp_line_ok:
  assumes "\<forall>i'<length c. \<forall>j'<length (c ! i'). line_ok clk (c ! i' ! j')"
    and "sint clk < 2147483647" "valid ln = CHR ''1''" "count ln = clk"
    and "i' < length c" "j' < length (c ! i')"
  shows "line_ok (clk + 1) (set_line c i j ln ! i' ! j')"
proof (cases "i' = i \<and> j' = j")
  case True
  with assms show ?thesis by (simp add: nth_set_line line_ok_def sint_succ32)
next
  case False
  have "line_ok clk (c ! i' ! j')" using assms(1,5,6) by blast
  then have "line_ok (clk + 1) (c ! i' ! j')"
    using assms(2) by (auto simp add: line_ok_def sint_succ32)
  with False assms(5,6) show ?thesis by (auto simp add: nth_set_line)
qed

lemma stamp_line_unique:
  assumes "clock_unique c"
    and "\<forall>i'<length c. \<forall>j'<length (c ! i'). line_ok clk (c ! i' ! j')"
    and "count ln = clk"
  shows "clock_unique (set_line c i j ln)"
  unfolding clock_unique_def
proof (intro allI impI)
  fix a b a' b'
  assume a: "a < length (set_line c i j ln)" and b: "b < length (set_line c i j ln ! a)"
    and a': "a' < length (set_line c i j ln)" and b': "b' < length (set_line c i j ln ! a')"
    and h: "valid (set_line c i j ln ! a ! b) = CHR ''1'' \<and>
            valid (set_line c i j ln ! a' ! b') = CHR ''1'' \<and>
            count (set_line c i j ln ! a ! b) = count (set_line c i j ln ! a' ! b')"
  have la: "a < length c" "b < length (c ! a)" "a' < length c" "b' < length (c ! a')"
    using a b a' b' by simp_all
  have old: "valid (c ! x ! y) = CHR ''1'' \<Longrightarrow> count (c ! x ! y) \<noteq> clk"
    if "x < length c" "y < length (c ! x)" for x y
    using assms(2) that by (auto simp add: line_ok_def)
  consider (both) "a = i \<and> b = j" "a' = i \<and> b' = j"
    | (left) "a = i \<and> b = j" "\<not> (a' = i \<and> b' = j)"
    | (right) "\<not> (a = i \<and> b = j)" "a' = i \<and> b' = j"
    | (none) "\<not> (a = i \<and> b = j)" "\<not> (a' = i \<and> b' = j)"
    by blast
  then show "a = a' \<and> b = b'"
  proof cases
    case both
    then show ?thesis by simp
  next
    case left
    with h la old[OF la(3,4)] assms(3) show ?thesis by (simp add: nth_set_line)
  next
    case right
    with h la old[OF la(1,2)] assms(3) show ?thesis by (simp add: nth_set_line)
  next
    case none
    with h la have "valid (c ! a ! b) = CHR ''1'' \<and> valid (c ! a' ! b') = CHR ''1'' \<and>
        count (c ! a ! b) = count (c ! a' ! b')"
      by (simp add: nth_set_line)
    with assms(1) la show ?thesis unfolding clock_unique_def by blast
  qed
qed

lemma counters_ok_bounds:
  assumes "counters_ok st" "sint (counter st) < 2147483647"
  shows "sint (hit_cnt st + 1) = sint (hit_cnt st) + 1"
    and "sint (miss_cnt st + 1) = sint (miss_cnt st) + 1"
    and "sint (evict_cnt st + 1) = sint (evict_cnt st) + 1"
    and "sint (counter st + 1) = sint (counter st) + 1"
  using assms by (simp_all add: counters_ok_def sint_succ32)

lemma sim_inv_on_hit:
  assumes inv: "sim_inv s E st" and c: "sint (counter st) < 2147483647"
    and v: "valid (cache st ! i ! j) = CHR ''1''"
  shows "sim_inv s E (on_hit st i j)"
proof -
  let ?ln = "(cache st ! i ! j)\<lparr>count := counter st\<rparr>"
  have co: "counters_ok st" and cu: "clock_unique (cache st)"
    and sh: "cache_shape s E (cache st)"
    and lo: "\<forall>i'<length (cache st). \<forall>j'<length (cache st ! i'). line_ok (counter st) (cache st ! i' ! j')"
    using inv by (simp_all add: sim_inv_def)
  have 1: "cache_shape s E (set_line (cache st) i j ?ln)" using sh by (rule stamp_line_shape)
  have 2: "clock_unique (set_line (cache st) i j ?ln)"
    using cu lo by (rule stamp_line_unique) simp
  have 3: "line_ok (counter st + 1) (set_line (cache st) i j ?ln ! i' ! j')"
    if "i' < length (cache st)" "j' < length (cache st ! i')" for i' j'
    using lo c _ _ that by (rule stamp_line_ok) (simp_all add: v)
  have 4: "counters_ok (on_hit st i j)"
    using co counters_ok_bounds[OF co c] by (simp add: counters_ok_def on_hit_def)
  show ?thesis using 1 2 3 4 by (simp add: sim_inv_def on_hit_def)
qed

lemma sim_inv_fill_line:
  assumes inv: "sim_inv s E st" and c: "sint (counter st) < 2147483647"
    and st1: "st1 = st\<lparr>miss_cnt := miss_cnt st + 1\<rparr> \<or>
              st1 = st\<lparr>miss_cnt := miss_cnt st + 1, evict_cnt := evict_cnt st + 1\<rparr>"
  shows "sim_inv s E (fill_line st1 i j tg)"
proof -
  let ?ln = "\<lparr>valid = CHR ''1'', tag = tg, count = counter st\<rparr>"
  have co: "counters_ok st" and cu: "clock_unique (cache st)"
    and sh: "cache_shape s E (cache st)"
    and lo: "\<forall>i'<length (cache st). \<forall>j'<length (cache st ! i'). line_ok (counter st) (cache st ! i' ! j')"
    using inv by (simp_all add: sim_inv_def)
  have eq: "cache st1 = cache st" "counter st1 = counter st" "hit_cnt st1 = hit_cnt st"
    "miss_cnt st1 = miss_cnt st + 1" using st1 by auto
  have ev: "evict_cnt st1 = evict_cnt st \<or> evict_cnt st1 = evict_cnt st + 1" using st1 by auto
  have 1: "cache_shape s E (set_line (cache st) i j ?ln)" using sh by (rule stamp_line_shape)
  have 2: "clock_unique (set_line (cache st) i j ?ln)"
    using cu lo by (rule stamp_line_unique) simp
  have 3: "line_ok (counter st + 1) (set_line (cache st) i j ?ln ! i' ! j')"
    if "i' < length (cache st)" "j' < length (cache st ! i')" for i' j'
    using lo c _ _ that by (rule stamp_line_ok) simp_all
  have 4: "counters_ok (fill_line st1 i j tg)"
    using co counters_ok_bounds[OF co c] ev
    by (auto simp add: counters_ok_def fill_line_def eq)
  show ?thesis using 1 2 3 4 by (simp add: sim_inv_def fill_line_def eq)
qed

lemma access_data_inv:
  assumes g: "geom_ok b s E" and inv: "sim_inv s E st"
    and c: "sint (counter st) < 2147483647"
    and a: "access_data b s E st addr = Inr (out, st')"
  shows "sim_inv s E st'"
proof -
  define i where "i = unat (addr_set b s addr)"
  define tg where "tg = addr_tag b s addr"
  from g inv i_def tg_def show ?thesis
  proof (cases rule: access_data_cases)
    case (hit j)
    then have "valid (cache st ! i ! j) = CHR ''1''" by (simp add: line_hits_def)
    from sim_inv_on_hit[OF inv c this] hit(4) a show ?thesis by simp
  next
    case (fill j)
    from sim_inv_fill_line[OF inv c, of "st\<lparr>miss_cnt := miss_cnt st + 1\<rparr>" i j tg] fill(5) a
    show ?thesis by simp
  next
    case (evict j)
    from sim_inv_fill_line[OF inv c,
        of "st\<lparr>miss_cnt := miss_cnt st + 1, evict_cnt := evict_cnt st + 1\<rparr>" i j tg] evict(5) a
    show ?thesis by simp
  qed
qed

lemma init_sim_inv:
  assumes "init_sim b s E = Inr st"
  shows "sim_inv s E st"
proof -
  have st: "st = \<lparr>cache = replicate (2 ^ s) (replicate E empty_line),
                  hit_cnt = 0, miss_cnt = 0, evict_cnt = 0, counter = 1\<rparr>"
    using assms by (simp add: init_sim_def init_cache_def split: if_splits)
  show ?thesis
    unfolding st
    by (simp add: sim_inv_def cache_shape_def counters_ok_def clock_unique_def
        line_ok_def empty_line_def)
qed

lemma init_sim_fields:
  assumes "init_sim b s E = Inr st"
  shows "hit_cnt st = 0" "miss_cnt st = 0" "evict_cnt st = 0" "counter st = 1"
  using assms by (auto simp add: init_sim_def split: sum.splits)

section \<open>Replaying a trace\<close>

lemma counters_le_refl: "counters_le st st"
  by (simp add: counters_le_def)

lemma counters_le_trans: "counters_le st st1 \<Longrightarrow> counters_le st1 st2 \<Longrightarrow> counters_le st st2"
  by (auto simp add: counters_le_def)

lemma access_data_step:
  assumes g: "geom_ok b s E" and inv: "sim_inv s E st"
    and c: "sint (counter st) < 2147483647"
  shows "\<exists>out st'. access_data b s E st addr = Inr (out, st') \<and> sim_inv s E st' \<and>
           counter st' = counter st + 1 \<and> sint (counter st') = sint (counter st) + 1 \<and>
           counters_le st st'"
proof -
  have co: "counters_ok st" using inv by (simp add: sim_inv_def)
  note bnd = counters_ok_bounds[OF co c]
  from g inv refl refl show ?thesis
  proof (cases rule: access_data_cases[where addr = addr])
    case (hit j)
    have "sim_inv s E (on_hit st (unat (addr_set b s addr)) j)"
      using access_data_inv[OF g inv c hit(4)] .
    with hit(4) bnd show ?thesis
      by (simp add: on_hit_def counters_le_def)
  next
    case (fill j)
    have "sim_inv s E (fill_line (st\<lparr>miss_cnt := miss_cnt st + 1\<rparr>)
            (unat (addr_set b s addr)) j (addr_tag b s addr))"
      using access_data_inv[OF g inv c fill(5)] .
    with fill(5) bnd show ?thesis
      by (simp add: fill_line_def counters_le_def)
  next
    case (evict j)
    have "sim_inv s E (fill_line (st\<lparr>miss_cnt := miss_cnt st + 1, evict_cnt := evict_cnt st + 1\<rparr>)
            (unat (addr_set b s addr)) j (addr_tag b s addr))"
      using access_data_inv[OF g inv c evict(5)] .
    with evict(5) bnd show ?thesis
      by (simp add: fill_line_def counters_le_def)
  qed
qed

lemma replay_rec_step:
  assumes g: "geom_ok b s E" and inv: "sim_inv s E st"
    and c: "sint (counter st) + int (rec_accesses r) \<le> 2147483647"
  shows "\<exists>outs st'. replay_rec b s E st r = Inr (outs, st') \<and> sim_inv s E st' \<and>
           sint (counter st') = sint (counter st) + int (rec_accesses r) \<and>
           length outs = rec_accesses r \<and> counters_le st st'"
proof -
  obtain k addr where r: "r = (k, addr)" by (cases r)
  consider (M) "k = CHR ''M''" | (LS) "k = CHR ''L'' \<or> k = CHR ''S''"
    | (other) "k \<noteq> CHR ''M''" "k \<noteq> CHR ''L''" "k \<noteq> CHR ''S''"
    by blast
  then show ?thesis
  proof cases
    case M
    then have c1: "sint (counter st) < 2147483647" using c r by (simp add: rec_accesses_def)
    from access_data_step[OF g inv c1, of addr] obtain o1 st1 where
      1: "access_data b s E st addr = Inr (o1, st1)" "sim_inv s E st1"
         "sint (counter st1) = sint (counter st) + 1" "counters_le st st1"
      by blast
    have c2: "sint (counter st1) < 2147483647" using c r M 1(3) by (simp add: rec_accesses_def)
    from access_data_step[OF g 1(2) c2, of addr] obtain o2 st2 where
      2: "access_data b s E st1 addr = Inr (o2, st2)" "sim_inv s E st2"
         "sint (counter st2) = sint (counter st1) + 1" "counters_le st1 st2"
      by blast
    have "replay_rec b s E st r = Inr ([o1, o2], st2)"
      using r M 1(1) 2(1) by (simp add: replay_rec_def access_twice_def)
    with 1 2 r M counters_le_trans[OF 1(4) 2(4)] show ?thesis
      by (simp add: rec_accesses_def)
  next
    case LS
    then have c1: "sint (counter st) < 2147483647" using c r by (auto simp add: rec_accesses_def)
    from access_data_step[OF g inv c1, of addr] obtain o1 st1 where
      1: "access_data b s E st addr = Inr (o1, st1)" "sim_inv s E st1"
         "sint (counter st1) = sint (counter st) + 1" "counters_le st st1"
      by blast
    have "replay_rec b s E st r = Inr ([o1], st1)"
      using r LS 1(1) by (auto simp add: replay_rec_def access_once_def)
    with 1 r LS show ?thesis by (auto simp add: rec_accesses_def)
  next
    case other
    then have "replay_rec b s E st r = Inr ([], st)" using r by (simp add: replay_rec_def)
    with other r inv show ?thesis by (simp add: rec_accesses_def counters_le_refl)
  qed
qed

lemma replay_trace_steps:
  assumes g: "geom_ok b s E" and inv: "sim_inv s E st"
    and c: "sint (counter st) + int (trace_accesses rs) \<le> 2147483647"
  shows "\<exists>outs st'. replay_trace b s E st rs = Inr (outs, st') \<and> sim_inv s E st' \<and>
           sint (counter st') = sint (counter st) + int (trace_accesses rs) \<and>
           length outs = trace_accesses rs \<and> counters_le st st'"
  using inv c
proof (induction rs arbitrary: st)
  case Nil
  then show ?case by (simp add: trace_accesses_def counters_le_refl)
next
  case (Cons r rs)
  have c1: "sint (counter st) + int (rec_accesses r) \<le> 2147483647"
    using Cons.prems(2) by (simp add: trace_accesses_def)
  from replay_rec_step[OF g Cons.prems(1) c1] obtain os1 st1 where
    1: "replay_rec b s E st r = Inr (os1, st1)" "sim_inv s E st1"
       "sint (counter st1) = sint (counter st) + int (rec_accesses r)"
       "length os1 = rec_accesses r" "counters_le st st1"
    by blast
  have c2: "sint (counter st1) + int (trace_accesses rs) \<le> 2147483647"
    using Cons.prems(2) 1(3) by (simp add: trace_accesses_def)
  from Cons.IH[OF 1(2) c2] obtain os2 st2 where
    2: "replay_trace b s E st1 rs = Inr (os2, st2)" "sim_inv s E st2"
       "sint (counter st2) = sint (counter st1) + int (trace_accesses rs)"
       "length os2 = trace_accesses rs" "counters_le st1 st2"
    by blast
  have "replay_trace b s E st (r # rs) = Inr (os1 @ os2, st2)" using 1(1) 2(1) by simp
  with 1 2 counters_le_trans[OF 1(5) 2(5)] show ?case
    by (simp add: trace_accesses_def)
qed

lemma replay_trace_append:
  "replay_trace b s E st (rs1 @ rs2) =
     (case replay_trace b s E st rs1 of
        Inl f \<Rightarrow> Inl f
      | Inr (os1, st1) \<Rightarrow>
          (case replay_trace b s E st1 rs2 of
             Inl f \<Rightarrow> Inl f
           | Inr (os2, st2) \<Rightarrow> Inr (os1 @ os2, st2)))"
  by (induction rs1 arbitrary: st) (auto split: sum.splits)

lemma trace_accesses_append:
  "trace_accesses (rs1 @ rs2) = trace_accesses rs1 + trace_accesses rs2"
  by (simp add: trace_accesses_def)

lemma access_data_words:
  assumes sd: "shifts_defined b s" and sh: "cache_shape s E (cache st)"
  shows "\<exists>out st'. access_data b s E st addr = Inr (out, st') \<and>
           cache_shape s E (cache st') \<and>
           (out = Hit \<and> hit_cnt st' = hit_cnt st + 1 \<and> miss_cnt st' = miss_cnt st \<or>
            out \<noteq> Hit \<and> hit_cnt st' = hit_cnt st \<and> miss_cnt st' = miss_cnt st + 1)"
proof -
  have il: "unat (addr_set b s addr) < length (cache st)"
    using sh addr_set_less[of b s addr] by (simp add: cache_shape_def)
  then have El: "E \<le> length (cache st ! unat (addr_set b s addr))"
    using sh by (simp add: cache_shape_def)
  from access_data_total[OF sd il El] obtain out st' where
    a: "access_data b s E st addr = Inr (out, st')" by blast
  from access_data_results[OF a refl refl, THEN conjunct2] sh
  have "cache_shape s E (cache st') \<and>
           (out = Hit \<and> hit_cnt st' = hit_cnt st + 1 \<and> miss_cnt st' = miss_cnt st \<or>
            out \<noteq> Hit \<and> hit_cnt st' = hit_cnt st \<and> miss_cnt st' = miss_cnt st + 1)"
    by (elim disjE conjE exE)
       (simp_all add: on_hit_def fill_line_def stamp_line_shape)
  with a show ?thesis by blast
qed

lemma access_data_counts:
  assumes sd: "shifts_defined b s" and sh: "cache_shape s E (cache st)"
  shows "\<exists>out st'. access_data b s E st addr = Inr (out, st') \<and>
           cache_shape s E (cache st') \<and>
           (hit_cnt st' = hit_cnt st + 1 \<and> miss_cnt st' = miss_cnt st \<and>
              evict_cnt st' = evict_cnt st \<or>
            hit_cnt st' = hit_cnt st \<and> miss_cnt st' = miss_cnt st + 1 \<and>
              (evict_cnt st' = evict_cnt st \<or> evict_cnt st' = evict_cnt st + 1))"
proof -
  have il: "unat (addr_set b s addr) < length (cache st)"
    using sh addr_set_less[of b s addr] by (simp add: cache_shape_def)
  then have El: "E \<le> length (cache st ! unat (addr_set b s addr))"
    using sh by (simp add: cache_shape_def)
  from access_data_total[OF sd il El] obtain out st' where
    a: "access_data b s E st addr = Inr (out, st')" by blast
  from access_data_results[OF a refl refl, THEN conjunct2] sh
  have "cache_shape s E (cache st') \<and>
           (hit_cnt st' = hit_cnt st + 1 \<and> miss_cnt st' = miss_cnt st \<and>
              evict_cnt st' = evict_cnt st \<or>
            hit_cnt st' = hit_cnt st \<and> miss_cnt st' = miss_cnt st + 1 \<and>
              (evict_cnt st' = evict_cnt st \<or> evict_cnt st' = evict_cnt st + 1))"
    by (elim disjE conjE exE)
       (simp_all add: on_hit_def fill_line_def stamp_line_shape)
  with a show ?thesis by blast
qed

lemma access_data_tally:
  assumes sd: "shifts_defined b s" and sh: "cache_shape s E (cache st)"
    and t: "tally n st" and n: "n < 2147483647"
  shows "\<exists>out st'. access_data b s E st addr = Inr (out, st') \<and>
           cache_shape s E (cache st') \<and> tally (Suc n) st' \<and> counters_le st st'"
proof -
  from access_data_counts[OF sd sh, of addr] obtain out st' where
    a: "access_data b s E st addr = Inr (out, st')" "cache_shape s E (cache st')"
    and d: "hit_cnt st' = hit_cnt st + 1 \<and> miss_cnt st' = miss_cnt st \<and>
              evict_cnt st' = evict_cnt st \<or>
            hit_cnt st' = hit_cnt st \<and> miss_cnt st' = miss_cnt st + 1 \<and>
              (evict_cnt st' = evict_cnt st \<or> evict_cnt st' = evict_cnt st + 1)"
    by blast
  have b: "sint (hit_cnt st) < 2147483647" "sint (miss_cnt st) < 2147483647"
    "sint (evict_cnt st) < 2147483647"
    using t n by (simp_all add: tally_def)
  note s = sint_succ32[OF b(1)] sint_succ32[OF b(2)] sint_succ32[OF b(3)]
  from d have "tally (Suc n) st' \<and> counters_le st st'"
    using t s by (auto simp add: tally_def counters_le_def)
  with a show ?thesis by blast
qed

lemma replay_rec_tally:
  assumes sd: "shifts_defined b s" and sh: "cache_shape s E (cache st)"
    and t: "tally n st" and n: "n + rec_accesses r \<le> 2147483647"
  shows "\<exists>outs st'. replay_rec b s E st r = Inr (outs, st') \<and>
           cache_shape s E (cache st') \<and> tally (n + rec_accesses r) st' \<and>
           length outs = rec_accesses r \<and> counters_le st st'"
proof -
  obtain k addr where r: "r = (k, addr)" by (cases r)
  consider (M) "k = CHR ''M''" | (LS) "k = CHR ''L'' \<or> k = CHR ''S''"
    | (other) "k \<noteq> CHR ''M''" "k \<noteq> CHR ''L''" "k \<noteq> CHR ''S''"
    by blast
  then show ?thesis
  proof cases
    case M
    then have n1: "n < 2147483647" and n2: "Suc n < 2147483647"
      using n r by (simp_all add: rec_accesses_def)
    from access_data_tally[OF sd sh t n1, of addr] obtain o1 st1 where
      1: "access_data b s E st addr = Inr (o1, st1)" "cache_shape s E (cache st1)"
         "tally (Suc n) st1" "counters_le st st1"
      by blast
    from access_data_tally[OF sd 1(2,3) n2, of addr] obtain o2 st2 where
      2: "access_data b s E st1 addr = Inr (o2, st2)" "cache_shape s E (cache st2)"
         "tally (Suc (Suc n)) st2" "counters_le st1 st2"
      by blast
    have "replay_rec b s E st r = Inr ([o1, o2], st2)"
      using r M 1(1) 2(1) by (simp add: replay_rec_def access_twice_def)
    with 1 2 r M counters_le_trans[OF 1(4) 2(4)] show ?thesis
      by (simp add: rec_accesses_def)
  next
    case LS
    then have n1: "n < 2147483647" using n r by (auto simp add: rec_accesses_def)
    from access_data_tally[OF sd sh t n1, of addr] obtain o1 st1 where
      1: "access_data b s E st addr = Inr (o1, st1)" "cache_shape s E (cache st1)"
         "tally (Suc n) st1" "counters_le st st1"
      by blast
    have "replay_rec b s E st r = Inr ([o1], st1)"
      using r LS 1(1) by (auto simp add: replay_rec_def access_once_def)
    with 1 r LS show ?thesis by (auto simp add: rec_accesses_def)
  next
    case other
    then have "replay_rec b s E st r = Inr ([], st)" using r by (simp add: replay_rec_def)
    with other r sh t show ?thesis by (simp add: rec_accesses_def counters_le_refl)
  qed
qed

lemma replay_trace_tally:
  assumes sd: "shifts_defined b s" and sh: "cache_shape s E (cache st)"
    and t: "tally n st" and n: "n + trace_accesses rs \<le> 2147483647"
  shows "\<exists>outs st'. replay_trace b s E st rs = Inr (outs, st') \<and>
           cache_shape s E (cache st') \<and> tally (n + trace_accesses rs) st' \<and>
           length outs = trace_accesses rs \<and> counters_le st st'"
  using sh t n
proof (induction rs arbitrary: st n)
  case Nil
  then show ?case by (simp add: trace_accesses_def counters_le_refl)
next
  case (Cons r rs)
  have n1: "n + rec_accesses r \<le> 2147483647"
    using Cons.prems(3) by (simp add: trace_accesses_def)
  from replay_rec_tally[OF sd Cons.prems(1,2) n1] obtain os1 st1 where
    1: "replay_rec b s E st r = Inr (os1, st1)" "cache_shape s E (cache st1)"
       "tally (n + rec_accesses r) st1" "length os1 = rec_accesses r" "counters_le st st1"
    by blast
  have n2: "n + rec_accesses r + trace_accesses rs \<le> 2147483647"
    using Cons.prems(3) by (simp add: trace_accesses_def)
  from Cons.IH[OF 1(2,3) n2] obtain os2 st2 where
    2: "replay_trace b s E st1 rs = Inr (os2, st2)" "cache_shape s E (cache st2)"
       "tally (n + rec_accesses r + trace_accesses rs) st2"
       "length os2 = trace_accesses rs" "counters_le st1 st2"
    by blast
  have "replay_trace b s E st (r # rs) = Inr (os1 @ os2, st2)" using 1(1) 2(1) by simp
  with 1 2 counters_le_trans[OF 1(5) 2(5)] show ?case
    by (simp add: trace_accesses_def add.assoc)
qed

section \<open>A long run of loads of one address\<close>

text \<open>
  With \<open>s = E = b = 1\<close>, loads of address 0 on the initial cache: one miss, then hits,
  each of which adds one to \<open>hit_cnt\<close> and to the clock in machine arithmetic.
\<close>

lemma trace_accesses_loads: "trace_accesses (replicate n (CHR ''L'', a)) = n"
  by (induction n) (simp_all add: trace_accesses_def rec_accesses_def)

lemma access_hit_111:
  "access_data 1 1 1
     \<lparr>cache = [[\<lparr>valid = CHR ''1'', tag = 0, count = c\<rparr>], [empty_line]],
       hit_cnt = h, miss_cnt = m, evict_cnt = e, counter = k\<rparr> 0 =
   Inr (Hit,
     \<lparr>cache = [[\<lparr>valid = CHR ''1'', tag = 0, count = k\<rparr>], [empty_line]],
       hit_cnt = h + 1, miss_cnt = m, evict_cnt = e, counter = k + 1\<rparr>)"
  by (simp add: access_data_def shifts_defined_def
      addr_set_def addr_tag_def sBitMask_def tBitMask_def hit_scan.simps line_at_def
      on_hit_def set_line_def)

lemma load_hit_111:
  "replay_rec 1 1 1
     \<lparr>cache = [[\<lparr>valid = CHR ''1'', tag = 0, count = c\<rparr>], [empty_line]],
       hit_cnt = h, miss_cnt = m, evict_cnt = e, counter = k\<rparr> (CHR ''L'', 0) =
   Inr ([Hit],
     \<lparr>cache = [[\<lparr>valid = CHR ''1'', tag = 0, count = k\<rparr>], [empty_line]],
       hit_cnt = h + 1, miss_cnt = m, evict_cnt = e, counter = k + 1\<rparr>)"
  by (simp add: replay_rec_def access_once_def access_hit_111[simplified])

lemma load_miss_111:
  "replay_rec 1 1 1
     \<lparr>cache = [[empty_line], [empty_line]],
       hit_cnt = 0, miss_cnt = 0, evict_cnt = 0, counter = 1\<rparr> (CHR ''L'', 0) =
   Inr ([Miss],
     \<lparr>cache = [[\<lparr>valid = CHR ''1'', tag = 0, count = 1\<rparr>], [empty_line]],
       hit_cnt = 0, miss_cnt = 1, evict_cnt = 0, counter = 2\<rparr>)"
  by code_simp

lemma replay_hits_111:
  "replay_trace 1 1 1
     \<lparr>cache = [[\<lparr>valid = CHR ''1'', tag = 0, count = c\<rparr>], [empty_line]],
       hit_cnt = h, miss_cnt = m, evict_cnt = e, counter = k\<rparr>
     (replicate (Suc n) (CHR ''L'', 0)) =
   Inr (replicate (Suc n) Hit,
     \<lparr>cache = [[\<lparr>valid = CHR ''1'', tag = 0, count = k + of_nat n\<rparr>], [empty_line]],
       hit_cnt = h + of_nat (Suc n), miss_cnt = m, evict_cnt = e,
       counter = k + of_nat (Suc n)\<rparr>)"
proof (induction n arbitrary: c h k)
  case 0
  have "replay_trace 1 1 1
     \<lparr>cache = [[\<lparr>valid = CHR ''1'', tag = 0, count = c\<rparr>], [empty_line]],
       hit_cnt = h, miss_cnt = m, evict_cnt = e, counter = k\<rparr> [(CHR ''L'', 0)] =
   Inr ([Hit] @ [],
     \<lparr>cache = [[\<lparr>valid = CHR ''1'', tag = 0, count = k\<rparr>], [empty_line]],
       hit_cnt = h + 1, miss_cnt = m, evict_cnt = e, counter = k + 1\<rparr>)"
    by (simp only: replay_trace.simps load_hit_111 sum.case prod.case)
  then show ?case by simp
next
  case (Suc n)
  have "replay_trace 1 1 1
     \<lparr>cache = [[\<lparr>valid = CHR ''1'', tag = 0, count = c\<rparr>], [empty_line]],
       hit_cnt = h, miss_cnt = m, evict_cnt = e, counter = k\<rparr>
     ((CHR ''L'', 0) # replicate (Suc n) (CHR ''L'', 0)) =
   Inr ([Hit] @ replicate (Suc n) Hit,
     \<lparr>cache = [[\<lparr>valid = CHR ''1'', tag = 0, count = (k + 1) + of_nat n\<rparr>], [empty_line]],
       hit_cnt = (h + 1) + of_nat (Suc n), miss_cnt = m, evict_cnt = e,
       counter = (k + 1) + of_nat (Suc n)\<rparr>)"
    by (simp only: replay_trace.simps load_hit_111 Suc.IH sum.case prod.case)
  then show ?case by (simp add: add.assoc add.commute)
qed

lemma replay_loads_111:
  "replay_trace 1 1 1
     \<lparr>cache = [[empty_line], [empty_line]],
       hit_cnt = 0, miss_cnt = 0, evict_cnt = 0, counter = 1\<rparr>
     (replicate (Suc (Suc n)) (CHR ''L'', 0)) =
   Inr (Miss # replicate (Suc n) Hit,
     \<lparr>cache = [[\<lparr>valid = CHR ''1'', tag = 0, count = 2 + of_nat n\<rparr>], [empty_line]],
       hit_cnt = of_nat (Suc n), miss_cnt = 1, evict_cnt = 0,
       counter = 2 + of_nat (Suc n)\<rparr>)"
proof -
  have "replay_trace 1 1 1
     \<lparr>cache = [[empty_line], [empty_line]],
       hit_cnt = 0, miss_cnt = 0, evict_cnt = 0, counter = 1\<rparr>
     ((CHR ''L'', 0) # replicate (Suc n) (CHR ''L'', 0)) =
   Inr ([Miss] @ replicate (Suc n) Hit,
     \<lparr>cache = [[\<lparr>valid = CHR ''1'', tag = 0, count = 2 + of_nat n\<rparr>], [empty_line]],
       hit_cnt = 0 + of_nat (Suc n), miss_cnt = 1, evict_cnt = 0,
       counter = 2 + of_nat (Suc n)\<rparr>)"
    by (simp only: replay_trace.simps load_miss_111 replay_hits_111 sum.case prod.case)
  then show ?thesis by simp
qed

section \<open>The claims\<close>



text \<open>
  C2. On a cache of the right shape, if some line of the target set is valid and holds
  the target tag, the access is a hit at the first such line in index order: \<open>hit_cnt\<close> is
  incremented, that line's \<open>count\<close> becomes the clock's value and nothing else of it
  changes, the clock is incremented, and \<open>miss_cnt\<close> and \<open>evict_cnt\<close> keep their values. The
  two increments are by one as numbers too, unless the counter was \<open>INT_MAX\<close>.
\<close>

theorem access_data_hit:
  assumes "geom_ok b s E" and "cache_shape s E (cache st)"
    and "i = unat (addr_set b s addr)" and "tg = addr_tag b s addr"
    and "\<exists>j<E. line_hits (cache st) i tg j"
  shows "\<exists>j st'. j < E \<and> line_hits (cache st) i tg j \<and>
           (\<forall>j'<j. \<not> line_hits (cache st) i tg j') \<and>
           access_data b s E st addr = Inr (Hit, st') \<and>
           hit_cnt st' = hit_cnt st + 1 \<and>
           cache st' = set_line (cache st) i j ((cache st ! i ! j)\<lparr>count := counter st\<rparr>) \<and>
           counter st' = counter st + 1 \<and>
           miss_cnt st' = miss_cnt st \<and> evict_cnt st' = evict_cnt st \<and>
           (sint (hit_cnt st) < 2147483647 \<longrightarrow> sint (hit_cnt st') = sint (hit_cnt st) + 1) \<and>
           (sint (counter st) < 2147483647 \<longrightarrow> sint (counter st') = sint (counter st) + 1)"
proof -
  have sd: "shifts_defined b s" using assms(1) by (rule geom_ok_shifts)
  have il: "i < length (cache st)"
    using assms(2,3) addr_set_less[of b s addr] by (simp add: cache_shape_def)
  then have El: "E \<le> length (cache st ! i)" using assms(2) by (simp add: cache_shape_def)
  from assms(5) obtain j1 where "j1 < E" "line_hits (cache st) i tg j1" by blast
  then obtain j where j: "j < E" "line_hits (cache st) i tg j"
    "\<forall>j'<j. \<not> line_hits (cache st) i tg j'"
    by (rule first_index)
  from access_hit[OF sd assms(3,4) il El j] j show ?thesis
    by (intro exI[of _ j] exI[of _ "on_hit st i j"]) (simp add: on_hit_def sint_succ32)
qed

theorem access_data_hit_witness:
  "geom_ok 1 1 2 \<and>
   cache_shape 1 2 [[\<lparr>valid = CHR ''1'', tag = 0, count = 1\<rparr>,
                     \<lparr>valid = CHR ''1'', tag = 1, count = 2\<rparr>],
                    [empty_line, empty_line]] \<and>
   access_data 1 1 2 \<lparr>cache = [[\<lparr>valid = CHR ''1'', tag = 0, count = 1\<rparr>,
                                  \<lparr>valid = CHR ''1'', tag = 1, count = 2\<rparr>],
                                 [empty_line, empty_line]],
                        hit_cnt = 0, miss_cnt = 2, evict_cnt = 0, counter = 3\<rparr> 4 =
     Inr (Hit, \<lparr>cache = [[\<lparr>valid = CHR ''1'', tag = 0, count = 1\<rparr>,
                            \<lparr>valid = CHR ''1'', tag = 1, count = 3\<rparr>],
                           [empty_line, empty_line]],
                  hit_cnt = 1, miss_cnt = 2, evict_cnt = 0, counter = 4\<rparr>)"
proof -
  let ?st = "\<lparr>cache = [[\<lparr>valid = CHR ''1'', tag = 0, count = 1\<rparr>,
                           \<lparr>valid = CHR ''1'', tag = 1, count = 2\<rparr>],
                          [empty_line, empty_line]],
                 hit_cnt = 0, miss_cnt = 2, evict_cnt = 0, counter = 3\<rparr>"
  have g: "geom_ok 1 1 2" by (simp add: geom_ok_def)
  have sh: "cache_shape 1 2 (cache ?st)"
    by (simp add: cache_shape_def All_less_Suc nth_Cons')
  have i: "0 = unat (addr_set 1 1 4)" by (simp add: addr_set_def sBitMask_def)
  have tg: "1 = addr_tag 1 1 4" by (simp add: addr_tag_def tBitMask_def)
  have h: "\<exists>j<2. line_hits (cache ?st) 0 1 j"
    by (intro exI[of _ 1]) (simp add: line_hits_def)
  from access_data_hit[OF g sh i tg h]
  obtain j st' where r: "j < 2" "line_hits (cache ?st) 0 1 j"
    "access_data 1 1 2 ?st 4 = Inr (Hit, st')" "hit_cnt st' = hit_cnt ?st + 1"
    "cache st' = set_line (cache ?st) 0 j ((cache ?st ! 0 ! j)\<lparr>count := counter ?st\<rparr>)"
    "counter st' = counter ?st + 1" "miss_cnt st' = miss_cnt ?st" "evict_cnt st' = evict_cnt ?st"
    by blast
  from r(1,2) have "j = 1" by (cases "j = 0") (auto simp add: line_hits_def)
  with r(4-8) have "st' = \<lparr>cache = [[\<lparr>valid = CHR ''1'', tag = 0, count = 1\<rparr>,
                            \<lparr>valid = CHR ''1'', tag = 1, count = 3\<rparr>],
                           [empty_line, empty_line]],
                  hit_cnt = 1, miss_cnt = 2, evict_cnt = 0, counter = 4\<rparr>"
    by (cases st') (simp add: set_line_def)
  with r(3) g sh show ?thesis by simp
qed



text \<open>
  C4. For \<open>b\<close> and \<open>s\<close> positive with \<open>b + s < 64\<close> and every 64-bit address, the tag
  shifted left by \<open>b + s\<close>, the set index shifted left by \<open>b\<close> and the low \<open>b\<close> bits of the
  address, joined by bitwise or, give the address back.
\<close>

theorem decode_recombines:
  assumes "0 < b" "0 < s" "b + s < 64"
  shows "push_bit (b + s) (addr_tag b s addr) OR push_bit b (addr_set b s addr) OR
         (addr AND (push_bit b 1 - 1)) = addr"
proof (rule bit_word_eqI)
  fix n assume n: "n < LENGTH(64)"
  consider "n < b" | "b \<le> n" "n < b + s" | "b + s \<le> n" by linarith
  then show "bit (push_bit (b + s) (addr_tag b s addr) OR push_bit b (addr_set b s addr) OR
                  (addr AND (push_bit b 1 - 1))) n = bit addr n"
  proof cases
    case 1
    then show ?thesis using assms n
      by (simp add: addr_set_def addr_tag_def sBitMask_def tBitMask_def bit_simps
          flip: mask_eq_exp_minus_1)
  next
    case 2
    then show ?thesis using assms n
      by (auto simp add: addr_set_def addr_tag_def sBitMask_def tBitMask_def bit_simps
          simp flip: mask_eq_exp_minus_1)
  next
    case 3
    then show ?thesis using assms n
      by (auto simp add: addr_set_def addr_tag_def sBitMask_def tBitMask_def bit_simps
          simp flip: mask_eq_exp_minus_1)
  qed
qed

theorem decode_recombines_witness:
  "(0::nat) < 4 \<and> (0::nat) < 5 \<and> (4::nat) + 5 < 64 \<and>
   addr_tag 4 5 0xFEDCBA9876543210 = 0x7F6E5D4C3B2A19 \<and>
   addr_set 4 5 0xFEDCBA9876543210 = 1 \<and>
   push_bit (4 + 5) (addr_tag 4 5 0xFEDCBA9876543210) OR
   push_bit 4 (addr_set 4 5 0xFEDCBA9876543210) OR
   (0xFEDCBA9876543210 AND (push_bit 4 1 - 1)) = (0xFEDCBA9876543210 :: mem_addr_t)"
proof -
  have t: "addr_tag 4 5 0xFEDCBA9876543210 = 0x7F6E5D4C3B2A19"
    by (simp add: addr_tag_def tBitMask_def)
  have s: "addr_set 4 5 0xFEDCBA9876543210 = 1"
    by (simp add: addr_set_def sBitMask_def)
  from decode_recombines[of 4 5 "0xFEDCBA9876543210"] t s show ?thesis by simp
qed

text \<open>
  C5. On the cache that \<open>init_cache\<close> builds the three counters are 0. Replaying a trace
  that makes at most \<open>INT_MAX\<close> accesses (a load or a store makes one, a modify two, any
  other record none) returns, with one outcome for each access; at the end hits plus
  misses is the number of accesses and evictions are at most the misses; and at every
  point of the run (after any prefix \<open>rs1\<close> of the trace) no counter is negative and none
  is above its value at the end.
\<close>

theorem replay_counters:
  assumes "geom_ok b s E" and "init_sim b s E = Inr st0"
    and "trace_accesses (rs1 @ rs2) \<le> 2147483647"
  shows "hit_cnt st0 = 0 \<and> miss_cnt st0 = 0 \<and> evict_cnt st0 = 0 \<and>
         (\<exists>outs1 st1 outs2 st2.
            replay_trace b s E st0 rs1 = Inr (outs1, st1) \<and>
            replay_trace b s E st0 (rs1 @ rs2) = Inr (outs1 @ outs2, st2) \<and>
            length (outs1 @ outs2) = trace_accesses (rs1 @ rs2) \<and>
            sint (hit_cnt st2) + sint (miss_cnt st2) = int (trace_accesses (rs1 @ rs2)) \<and>
            sint (evict_cnt st2) \<le> sint (miss_cnt st2) \<and>
            0 \<le> sint (hit_cnt st1) \<and> sint (hit_cnt st1) \<le> sint (hit_cnt st2) \<and>
            0 \<le> sint (miss_cnt st1) \<and> sint (miss_cnt st1) \<le> sint (miss_cnt st2) \<and>
            0 \<le> sint (evict_cnt st1) \<and> sint (evict_cnt st1) \<le> sint (evict_cnt st2))"
proof -
  note f = init_sim_fields[OF assms(2)]
  have sd: "shifts_defined b s" using assms(1) by (rule geom_ok_shifts)
  have sh0: "cache_shape s E (cache st0)"
    using init_sim_inv[OF assms(2)] by (simp add: sim_inv_def)
  have t0: "tally 0 st0" using f by (simp add: tally_def)
  have n1: "0 + trace_accesses rs1 \<le> 2147483647"
    using assms(3) by (simp add: trace_accesses_append)
  from replay_trace_tally[OF sd sh0 t0 n1] obtain outs1 st1 where
    1: "replay_trace b s E st0 rs1 = Inr (outs1, st1)" "cache_shape s E (cache st1)"
       "tally (0 + trace_accesses rs1) st1" "length outs1 = trace_accesses rs1"
    by blast
  have n2: "0 + trace_accesses rs1 + trace_accesses rs2 \<le> 2147483647"
    using assms(3) by (simp add: trace_accesses_append)
  from replay_trace_tally[OF sd 1(2,3) n2] obtain outs2 st2 where
    2: "replay_trace b s E st1 rs2 = Inr (outs2, st2)"
       "tally (0 + trace_accesses rs1 + trace_accesses rs2) st2"
       "length outs2 = trace_accesses rs2" "counters_le st1 st2"
    by blast
  have app: "replay_trace b s E st0 (rs1 @ rs2) = Inr (outs1 @ outs2, st2)"
    using 1(1) 2(1) by (simp add: replay_trace_append)
  have len: "length (outs1 @ outs2) = trace_accesses (rs1 @ rs2)"
    using 1(4) 2(3) by (simp add: trace_accesses_append)
  have sum: "sint (hit_cnt st2) + sint (miss_cnt st2) = int (trace_accesses (rs1 @ rs2))"
    and ev: "sint (evict_cnt st2) \<le> sint (miss_cnt st2)"
    using 2(2) by (simp_all add: tally_def trace_accesses_append)
  have nonneg: "0 \<le> sint (hit_cnt st1)" "0 \<le> sint (miss_cnt st1)" "0 \<le> sint (evict_cnt st1)"
    using 1(3) by (simp_all add: tally_def)
  have mono: "sint (hit_cnt st1) \<le> sint (hit_cnt st2)" "sint (miss_cnt st1) \<le> sint (miss_cnt st2)"
    "sint (evict_cnt st1) \<le> sint (evict_cnt st2)"
    using 2(4) by (simp_all add: counters_le_def)
  show ?thesis
    using f(1-3) 1(1) app len sum ev nonneg mono by blast
qed

theorem replay_counters_witness:
  "geom_ok 1 1 1 \<and>
   init_sim 1 1 1 = Inr \<lparr>cache = [[empty_line], [empty_line]],
                        hit_cnt = 0, miss_cnt = 0, evict_cnt = 0, counter = 1\<rparr> \<and>
   trace_accesses ([(CHR ''L'', 0)] @ [(CHR ''M'', 8), (CHR ''I'', 0), (CHR ''S'', 8)]) = 4 \<and>
   (\<exists>outs st2.
      replay_trace 1 1 1 \<lparr>cache = [[empty_line], [empty_line]],
                           hit_cnt = 0, miss_cnt = 0, evict_cnt = 0, counter = 1\<rparr>
        ([(CHR ''L'', 0)] @ [(CHR ''M'', 8), (CHR ''I'', 0), (CHR ''S'', 8)]) = Inr (outs, st2) \<and>
      length outs = 4 \<and> sint (hit_cnt st2) + sint (miss_cnt st2) = 4 \<and>
      sint (evict_cnt st2) \<le> sint (miss_cnt st2))"
proof -
  have g: "geom_ok 1 1 1" by (simp add: geom_ok_def)
  have i: "init_sim 1 1 1 = Inr \<lparr>cache = [[empty_line], [empty_line]],
                        hit_cnt = 0, miss_cnt = 0, evict_cnt = 0, counter = 1\<rparr>"
    by code_simp
  have n: "trace_accesses ([(CHR ''L'', 0)] @ [(CHR ''M'', 8), (CHR ''I'', 0), (CHR ''S'', 8)]) = 4"
    by (simp add: trace_accesses_def rec_accesses_def)
  then have le: "trace_accesses ([(CHR ''L'', 0)] @ [(CHR ''M'', 8), (CHR ''I'', 0), (CHR ''S'', 8)])
      \<le> 2147483647" by simp
  from replay_counters[OF g i le] n g i show ?thesis by auto
qed

text \<open>
  C5, beyond \<open>INT_MAX\<close> accesses. With \<open>s = E = b = 1\<close>, replay 2147483649 loads of
  address 0 on the cache that \<open>init_cache\<close> builds: one miss, then hits. After 2147483648 of
  them \<open>hit_cnt\<close> is 2147483647, which is \<open>INT_MAX\<close>; the last load increments it to the
  word 2147483648, which as an \<open>int\<close> is -2147483648. So \<open>hit_cnt\<close> has decreased and is
  negative, and hits plus misses is -2147483647, not the 2147483649 accesses made.
\<close>

theorem replay_counters_counterexample:
  "geom_ok 1 1 1 \<and>
   init_sim 1 1 1 = Inr \<lparr>cache = [[empty_line], [empty_line]],
                          hit_cnt = 0, miss_cnt = 0, evict_cnt = 0, counter = 1\<rparr> \<and>
   trace_accesses (replicate 2147483649 (CHR ''L'', 0)) = 2147483649 \<and>
   replay_trace 1 1 1
     \<lparr>cache = [[empty_line], [empty_line]],
       hit_cnt = 0, miss_cnt = 0, evict_cnt = 0, counter = 1\<rparr>
     (replicate 2147483648 (CHR ''L'', 0)) =
   Inr (Miss # replicate 2147483647 Hit,
     \<lparr>cache = [[\<lparr>valid = CHR ''1'', tag = 0, count = 2147483648\<rparr>], [empty_line]],
       hit_cnt = 2147483647, miss_cnt = 1, evict_cnt = 0, counter = 2147483649\<rparr>) \<and>
   replay_trace 1 1 1
     \<lparr>cache = [[empty_line], [empty_line]],
       hit_cnt = 0, miss_cnt = 0, evict_cnt = 0, counter = 1\<rparr>
     (replicate 2147483649 (CHR ''L'', 0)) =
   Inr (Miss # replicate 2147483648 Hit,
     \<lparr>cache = [[\<lparr>valid = CHR ''1'', tag = 0, count = 2147483649\<rparr>], [empty_line]],
       hit_cnt = 2147483648, miss_cnt = 1, evict_cnt = 0, counter = 2147483650\<rparr>) \<and>
   sint (2147483647 :: c_int) = 2147483647 \<and>
   sint (2147483648 :: c_int) = - 2147483648 \<and>
   sint (2147483648 :: c_int) + sint (1 :: c_int) = - 2147483647 \<and>
   sint (2147483648 :: c_int) + sint (1 :: c_int) \<noteq> int 2147483649"
proof -
  have i: "init_sim 1 1 1 = Inr \<lparr>cache = [[empty_line], [empty_line]],
                          hit_cnt = 0, miss_cnt = 0, evict_cnt = 0, counter = 1\<rparr>"
    by code_simp
  have g: "geom_ok 1 1 1" by (simp add: geom_ok_def)
  have n1: "(2147483648 :: nat) = Suc (Suc 2147483646)" by simp
  have n2: "(2147483649 :: nat) = Suc (Suc 2147483647)" by simp
  have m1: "(2147483647 :: nat) = Suc 2147483646" by simp
  have m2: "(2147483648 :: nat) = Suc 2147483647" by simp
  have r1: "replay_trace 1 1 1
     \<lparr>cache = [[empty_line], [empty_line]],
       hit_cnt = 0, miss_cnt = 0, evict_cnt = 0, counter = 1\<rparr>
     (replicate 2147483648 (CHR ''L'', 0)) =
   Inr (Miss # replicate 2147483647 Hit,
     \<lparr>cache = [[\<lparr>valid = CHR ''1'', tag = 0, count = 2147483648\<rparr>], [empty_line]],
       hit_cnt = 2147483647, miss_cnt = 1, evict_cnt = 0, counter = 2147483649\<rparr>)"
    by (subst n1, subst m1, subst replay_loads_111) simp
  have r2: "replay_trace 1 1 1
     \<lparr>cache = [[empty_line], [empty_line]],
       hit_cnt = 0, miss_cnt = 0, evict_cnt = 0, counter = 1\<rparr>
     (replicate 2147483649 (CHR ''L'', 0)) =
   Inr (Miss # replicate 2147483648 Hit,
     \<lparr>cache = [[\<lparr>valid = CHR ''1'', tag = 0, count = 2147483649\<rparr>], [empty_line]],
       hit_cnt = 2147483648, miss_cnt = 1, evict_cnt = 0, counter = 2147483650\<rparr>)"
    by (subst n2, subst m2, subst replay_loads_111) simp
  show ?thesis
    using i g r1 r2 by (simp add: trace_accesses_loads)
qed



text \<open>
  C7. \<open>counter\<close> is 1 on the cache that \<open>init_cache\<close> builds. In every state reached
  from there by replaying a trace, as long as the \<open>int\<close> clock has not reached \<open>INT_MAX\<close>:
  the clock is one more than the number of accesses made, no two valid lines of the
  cache hold the same \<open>count\<close>, and the next access, hit or miss, writes the clock's
  value from before the access into the \<open>count\<close> of the line it touches and adds exactly
  one to the clock, so that the clock is strictly greater afterwards and still no two
  valid lines hold the same \<open>count\<close>.
\<close>

theorem clock_discipline:
  assumes "geom_ok b s E" and "init_sim b s E = Inr st0"
    and "trace_accesses rs + 1 < 2147483647"
    and "i = unat (addr_set b s addr)" and "tg = addr_tag b s addr"
  shows "counter st0 = 1 \<and>
         (\<exists>outs st out st' j.
            replay_trace b s E st0 rs = Inr (outs, st) \<and>
            sint (counter st) = 1 + int (trace_accesses rs) \<and>
            clock_unique (cache st) \<and>
            access_data b s E st addr = Inr (out, st') \<and>
            j < E \<and>
            cache st' = set_line (cache st) i j \<lparr>valid = CHR ''1'', tag = tg, count = counter st\<rparr> \<and>
            count (cache st' ! i ! j) = counter st \<and>
            counter st' = counter st + 1 \<and>
            sint (counter st') = sint (counter st) + 1 \<and>
            sint (counter st) < sint (counter st') \<and>
            clock_unique (cache st'))"
proof -
  note f = init_sim_fields[OF assms(2)]
  have inv0: "sim_inv s E st0" using assms(2) by (rule init_sim_inv)
  have c1: "sint (counter st0) + int (trace_accesses rs) \<le> 2147483647"
    using assms(3) f(4) by simp
  from replay_trace_steps[OF assms(1) inv0 c1] obtain outs st where
    1: "replay_trace b s E st0 rs = Inr (outs, st)" "sim_inv s E st"
       "sint (counter st) = sint (counter st0) + int (trace_accesses rs)"
    by blast
  have cnt: "sint (counter st) = 1 + int (trace_accesses rs)" using 1(3) f(4) by simp
  have c2: "sint (counter st) < 2147483647" using cnt assms(3) by simp
  have u: "clock_unique (cache st)" using 1(2) by (simp add: sim_inv_def)
  from access_data_touch[OF assms(1) 1(2) assms(4,5)] obtain out st' j where
    2: "access_data b s E st addr = Inr (out, st')" "j < E"
       "cache st' = set_line (cache st) i j \<lparr>valid = CHR ''1'', tag = tg, count = counter st\<rparr>"
       "counter st' = counter st + 1"
    by blast
  have inv': "sim_inv s E st'" using access_data_inv[OF assms(1) 1(2) c2 2(1)] .
  then have u': "clock_unique (cache st')" by (simp add: sim_inv_def)
  have il: "i < length (cache st)" and rl: "length (cache st ! i) = E"
    using sim_inv_set_in_range[OF 1(2), of b addr] assms(4) by simp_all
  have ln: "count (cache st' ! i ! j) = counter st"
    using 2(2,3) il rl by (simp add: nth_set_line)
  have s1: "sint (counter st') = sint (counter st) + 1"
    using 2(4) c2 by (simp add: sint_succ32)
  then have s2: "sint (counter st) < sint (counter st')" by simp
  show ?thesis
    using f(4) 1(1) cnt u 2 ln s1 s2 u' by blast
qed

theorem clock_discipline_witness:
  "geom_ok 1 1 2 \<and>
   init_sim 1 1 2 = Inr \<lparr>cache = [[empty_line, empty_line], [empty_line, empty_line]],
                        hit_cnt = 0, miss_cnt = 0, evict_cnt = 0, counter = 1\<rparr> \<and>
   trace_accesses [(CHR ''L'', 0), (CHR ''M'', 4)] + 1 < 2147483647 \<and>
   (\<exists>outs st out st'.
      replay_trace 1 1 2 \<lparr>cache = [[empty_line, empty_line], [empty_line, empty_line]],
                           hit_cnt = 0, miss_cnt = 0, evict_cnt = 0, counter = 1\<rparr>
        [(CHR ''L'', 0), (CHR ''M'', 4)] = Inr (outs, st) \<and>
      sint (counter st) = 4 \<and> clock_unique (cache st) \<and>
      access_data 1 1 2 st 8 = Inr (out, st') \<and>
      sint (counter st') = 5 \<and> clock_unique (cache st'))"
proof -
  have g: "geom_ok 1 1 2" by (simp add: geom_ok_def)
  have i: "init_sim 1 1 2 = Inr \<lparr>cache = [[empty_line, empty_line], [empty_line, empty_line]],
                        hit_cnt = 0, miss_cnt = 0, evict_cnt = 0, counter = 1\<rparr>"
    by code_simp
  have n: "trace_accesses [(CHR ''L'', 0), (CHR ''M'', 4)] = 3"
    by (simp add: trace_accesses_def rec_accesses_def)
  then have lt: "trace_accesses [(CHR ''L'', 0), (CHR ''M'', 4)] + 1 < 2147483647" by simp
  from clock_discipline[OF g i lt refl refl, where addr = 8] n g i lt show ?thesis by auto
qed

text \<open>
  C7, at \<open>INT_MAX\<close>. With \<open>s = E = b = 1\<close>, replay 2147483646 loads of address 0 on the
  cache that \<open>init_cache\<close> builds: the clock is then 2147483647, which is \<open>INT_MAX\<close>. The
  next access, a hit, stamps that value and leaves the clock at the word 2147483648,
  which as an \<open>int\<close> is -2147483648: the access has not added one to the clock, and the
  clock is smaller than before.
\<close>

theorem clock_discipline_counterexample:
  "geom_ok 1 1 1 \<and>
   init_sim 1 1 1 = Inr \<lparr>cache = [[empty_line], [empty_line]],
                          hit_cnt = 0, miss_cnt = 0, evict_cnt = 0, counter = 1\<rparr> \<and>
   trace_accesses (replicate 2147483646 (CHR ''L'', 0)) = 2147483646 \<and>
   replay_trace 1 1 1
     \<lparr>cache = [[empty_line], [empty_line]],
       hit_cnt = 0, miss_cnt = 0, evict_cnt = 0, counter = 1\<rparr>
     (replicate 2147483646 (CHR ''L'', 0)) =
   Inr (Miss # replicate 2147483645 Hit,
     \<lparr>cache = [[\<lparr>valid = CHR ''1'', tag = 0, count = 2147483646\<rparr>], [empty_line]],
       hit_cnt = 2147483645, miss_cnt = 1, evict_cnt = 0, counter = 2147483647\<rparr>) \<and>
   access_data 1 1 1
     \<lparr>cache = [[\<lparr>valid = CHR ''1'', tag = 0, count = 2147483646\<rparr>], [empty_line]],
       hit_cnt = 2147483645, miss_cnt = 1, evict_cnt = 0, counter = 2147483647\<rparr> 0 =
   Inr (Hit,
     \<lparr>cache = [[\<lparr>valid = CHR ''1'', tag = 0, count = 2147483647\<rparr>], [empty_line]],
       hit_cnt = 2147483646, miss_cnt = 1, evict_cnt = 0, counter = 2147483648\<rparr>) \<and>
   sint (2147483647 :: c_int) = 2147483647 \<and>
   sint (2147483648 :: c_int) = - 2147483648 \<and>
   sint (2147483648 :: c_int) \<noteq> sint (2147483647 :: c_int) + 1 \<and>
   sint (2147483648 :: c_int) < sint (2147483647 :: c_int)"
proof -
  have i: "init_sim 1 1 1 = Inr \<lparr>cache = [[empty_line], [empty_line]],
                          hit_cnt = 0, miss_cnt = 0, evict_cnt = 0, counter = 1\<rparr>"
    by code_simp
  have g: "geom_ok 1 1 1" by (simp add: geom_ok_def)
  have n1: "(2147483646 :: nat) = Suc (Suc 2147483644)" by simp
  have m1: "(2147483645 :: nat) = Suc 2147483644" by simp
  have r1: "replay_trace 1 1 1
     \<lparr>cache = [[empty_line], [empty_line]],
       hit_cnt = 0, miss_cnt = 0, evict_cnt = 0, counter = 1\<rparr>
     (replicate 2147483646 (CHR ''L'', 0)) =
   Inr (Miss # replicate 2147483645 Hit,
     \<lparr>cache = [[\<lparr>valid = CHR ''1'', tag = 0, count = 2147483646\<rparr>], [empty_line]],
       hit_cnt = 2147483645, miss_cnt = 1, evict_cnt = 0, counter = 2147483647\<rparr>)"
    by (subst n1, subst m1, subst replay_loads_111) simp
  have a: "access_data 1 1 1
     \<lparr>cache = [[\<lparr>valid = CHR ''1'', tag = 0, count = 2147483646\<rparr>], [empty_line]],
       hit_cnt = 2147483645, miss_cnt = 1, evict_cnt = 0, counter = 2147483647\<rparr> 0 =
   Inr (Hit,
     \<lparr>cache = [[\<lparr>valid = CHR ''1'', tag = 0, count = 2147483647\<rparr>], [empty_line]],
       hit_cnt = 2147483646, miss_cnt = 1, evict_cnt = 0, counter = 2147483648\<rparr>)"
    by (subst access_hit_111) simp
  show ?thesis
    using i g r1 a by (simp add: trace_accesses_loads)
qed

text \<open>
  C8. With \<open>s = 1\<close>, \<open>E = 1\<close>, \<open>b = 1\<close>, the addresses 0 and 8 both have set index 0 and
  have different tags, and replaying the loads of 0, of 8 and of 0 on the cache that
  \<open>init_cache\<close> builds gives a miss, a miss with eviction and a miss with eviction; the
  counters end at 0 hits, 3 misses and 2 evictions.
\<close>

theorem concrete_scenario:
  "addr_set 1 1 0 = 0 \<and> addr_set 1 1 8 = 0 \<and> addr_tag 1 1 0 = 0 \<and> addr_tag 1 1 8 = 2 \<and>
   init_sim 1 1 1 = Inr \<lparr>cache = [[empty_line], [empty_line]],
                        hit_cnt = 0, miss_cnt = 0, evict_cnt = 0, counter = 1\<rparr> \<and>
   replay_trace 1 1 1
     \<lparr>cache = [[empty_line], [empty_line]],
       hit_cnt = 0, miss_cnt = 0, evict_cnt = 0, counter = 1\<rparr>
     [(CHR ''L'', 0), (CHR ''L'', 8), (CHR ''L'', 0)] =
   Inr ([Miss, MissEvict, MissEvict],
        \<lparr>cache = [[\<lparr>valid = CHR ''1'', tag = 0, count = 3\<rparr>], [empty_line]],
          hit_cnt = 0, miss_cnt = 3, evict_cnt = 2, counter = 4\<rparr>)"
  by code_simp

theorem concrete_scenario_witness:
  "\<exists>st. replay_trace 1 1 1
     \<lparr>cache = [[empty_line], [empty_line]],
       hit_cnt = 0, miss_cnt = 0, evict_cnt = 0, counter = 1\<rparr>
     [(CHR ''L'', 0), (CHR ''L'', 8), (CHR ''L'', 0)] = Inr ([Miss, MissEvict, MissEvict], st) \<and>
     sint (hit_cnt st) = 0 \<and> sint (miss_cnt st) = 3 \<and> sint (evict_cnt st) = 2"
  using concrete_scenario by simp

text \<open>
  C9. For a geometry with \<open>b\<close>, \<open>s\<close> and \<open>E\<close> positive and \<open>b + s < 64\<close>, the set index
  of every address is below the number of sets \<open>2 ^ s\<close>. On a cache of \<open>2 ^ s\<close> sets of
  \<open>E\<close> lines every access then returns: no shift is undefined, no line is read or
  written outside the arrays, and the access has counted either one hit or one miss. In
  a state of the simulation it returns through the hit, the fill or the eviction, never
  through the last \<open>return\<close>.
\<close>

theorem access_data_no_failure:
  assumes "geom_ok b s E"
  shows "unat (addr_set b s addr) < 2 ^ s \<and>
         (cache_shape s E (cache st) \<longrightarrow>
            (\<exists>out st'. access_data b s E st addr = Inr (out, st') \<and>
               cache_shape s E (cache st') \<and>
               (out = Hit \<and> hit_cnt st' = hit_cnt st + 1 \<and> miss_cnt st' = miss_cnt st \<or>
                out \<noteq> Hit \<and> hit_cnt st' = hit_cnt st \<and> miss_cnt st' = miss_cnt st + 1))) \<and>
         (sim_inv s E st \<longrightarrow>
            (\<exists>out st'. access_data b s E st addr = Inr (out, st') \<and>
               (out = Hit \<or> out = Miss \<or> out = MissEvict)))"
proof (intro conjI impI)
  show "unat (addr_set b s addr) < 2 ^ s" by (rule addr_set_less)
next
  assume sh: "cache_shape s E (cache st)"
  show "\<exists>out st'. access_data b s E st addr = Inr (out, st') \<and>
               cache_shape s E (cache st') \<and>
               (out = Hit \<and> hit_cnt st' = hit_cnt st + 1 \<and> miss_cnt st' = miss_cnt st \<or>
                out \<noteq> Hit \<and> hit_cnt st' = hit_cnt st \<and> miss_cnt st' = miss_cnt st + 1)"
    using geom_ok_shifts[OF assms] sh by (rule access_data_words)
next
  assume inv: "sim_inv s E st"
  from assms inv refl refl
  show "\<exists>out st'. access_data b s E st addr = Inr (out, st') \<and>
               (out = Hit \<or> out = Miss \<or> out = MissEvict)"
    by (cases rule: access_data_cases) blast+
qed

theorem access_data_no_failure_witness:
  "geom_ok 1 1 1 \<and> unat (addr_set 1 1 8) < 2 ^ 1 \<and>
   cache_shape 1 1 [[\<lparr>valid = CHR ''1'', tag = 0, count = 1\<rparr>], [empty_line]] \<and>
   sim_inv 1 1 \<lparr>cache = [[\<lparr>valid = CHR ''1'', tag = 0, count = 1\<rparr>], [empty_line]],
                  hit_cnt = 0, miss_cnt = 1, evict_cnt = 0, counter = 2\<rparr> \<and>
   (\<exists>out st'. access_data 1 1 1
        \<lparr>cache = [[\<lparr>valid = CHR ''1'', tag = 0, count = 1\<rparr>], [empty_line]],
          hit_cnt = 0, miss_cnt = 1, evict_cnt = 0, counter = 2\<rparr> 8 = Inr (out, st') \<and>
      (out = Hit \<or> out = Miss \<or> out = MissEvict))"
proof -
  let ?st = "\<lparr>cache = [[\<lparr>valid = CHR ''1'', tag = 0, count = 1\<rparr>], [empty_line]],
               hit_cnt = 0, miss_cnt = 1, evict_cnt = 0, counter = 2\<rparr>"
  have g: "geom_ok 1 1 1" by (simp add: geom_ok_def)
  have inv: "sim_inv 1 1 ?st"
    by (simp add: sim_inv_def cache_shape_def counters_ok_def clock_unique_def
        line_ok_def empty_line_def All_less_Suc nth_Cons')
  then have sh: "cache_shape 1 1 (cache ?st)" by (simp add: sim_inv_def)
  from access_data_no_failure[OF g, of 8 ?st] g inv sh show ?thesis by auto
qed

text \<open>
  C10. An access that returns changes at most one line of the cache, a line of the
  target set: the arrays keep their lengths and every other line of every set is as
  before. On a hit the line that may differ is a valid line holding the target tag, and
  its \<open>valid\<close> and \<open>tag\<close> fields are as before too, so only its \<open>count\<close> changes.
\<close>

theorem access_data_frame:
  assumes "access_data b s E st addr = Inr (out, st')"
    and "i = unat (addr_set b s addr)" and "tg = addr_tag b s addr"
  shows "length (cache st') = length (cache st) \<and>
         (\<forall>i'<length (cache st). length (cache st' ! i') = length (cache st ! i')) \<and>
         (\<exists>j. (\<forall>i'<length (cache st). \<forall>j'<length (cache st ! i').
                  i' \<noteq> i \<or> j' \<noteq> j \<longrightarrow> cache st' ! i' ! j' = cache st ! i' ! j') \<and>
              (out = Hit \<longrightarrow> i < length (cache st) \<and> j < length (cache st ! i) \<and>
                 line_hits (cache st) i tg j \<and>
                 cache st' ! i ! j = (cache st ! i ! j)\<lparr>count := counter st\<rparr>))"
proof -
  note r = access_data_results[OF assms, THEN conjunct2]
  have upd: "length (cache (fill_line st1 i j tg)) = length (cache st) \<and>
         (\<forall>i'<length (cache st). length (cache (fill_line st1 i j tg) ! i') = length (cache st ! i')) \<and>
         (\<forall>i'<length (cache st). \<forall>j'<length (cache st ! i').
                  i' \<noteq> i \<or> j' \<noteq> j \<longrightarrow>
                  cache (fill_line st1 i j tg) ! i' ! j' = cache st ! i' ! j')"
    if "cache st1 = cache st" for st1 j
    using that by (simp add: fill_line_def nth_set_line)
  from r show ?thesis
  proof (elim disjE conjE exE)
    fix j
    assume "out = Hit" "i < length (cache st)" "j < length (cache st ! i)"
      "line_hits (cache st) i tg j" "st' = on_hit st i j"
    then show ?thesis
      by (intro conjI exI[of _ j]) (simp_all add: on_hit_def nth_set_line)
  next
    fix j
    assume "out = Miss" "st' = fill_line (st\<lparr>miss_cnt := miss_cnt st + 1\<rparr>) i j tg"
    with upd[of "st\<lparr>miss_cnt := miss_cnt st + 1\<rparr>" j] show ?thesis
      by (intro conjI exI[of _ j]) simp_all
  next
    fix j
    assume "out = MissEvict"
      "st' = fill_line (st\<lparr>miss_cnt := miss_cnt st + 1, evict_cnt := evict_cnt st + 1\<rparr>) i j tg"
    with upd[of "st\<lparr>miss_cnt := miss_cnt st + 1, evict_cnt := evict_cnt st + 1\<rparr>" j]
    show ?thesis
      by (intro conjI exI[of _ j]) simp_all
  next
    assume "out = MissNoLine" "st' = st\<lparr>miss_cnt := miss_cnt st + 1\<rparr>"
    then show ?thesis by simp
  qed
qed

theorem access_data_frame_witness:
  "access_data 1 1 2
     \<lparr>cache = [[\<lparr>valid = CHR ''1'', tag = 0, count = 3\<rparr>,
                 \<lparr>valid = CHR ''1'', tag = 1, count = 2\<rparr>],
                [empty_line, empty_line]],
       hit_cnt = 1, miss_cnt = 2, evict_cnt = 0, counter = 4\<rparr> 4 =
     Inr (Hit, \<lparr>cache = [[\<lparr>valid = CHR ''1'', tag = 0, count = 3\<rparr>,
                            \<lparr>valid = CHR ''1'', tag = 1, count = 4\<rparr>],
                           [empty_line, empty_line]],
                  hit_cnt = 2, miss_cnt = 2, evict_cnt = 0, counter = 5\<rparr>) \<and>
   (\<exists>j. line_hits [[\<lparr>valid = CHR ''1'', tag = 0, count = 3\<rparr>,
                       \<lparr>valid = CHR ''1'', tag = 1, count = 2\<rparr>],
                      [empty_line, empty_line]] 0 1 j \<and>
        [[\<lparr>valid = CHR ''1'', tag = 0, count = 3\<rparr>,
          \<lparr>valid = CHR ''1'', tag = 1, count = 4\<rparr>],
         [empty_line, empty_line]] ! 0 ! j =
        ([[\<lparr>valid = CHR ''1'', tag = 0, count = 3\<rparr>,
           \<lparr>valid = CHR ''1'', tag = 1, count = 2\<rparr>],
          [empty_line, empty_line]] ! 0 ! j)\<lparr>count := 4\<rparr>)"
proof -
  let ?B = "\<lparr>cache = [[\<lparr>valid = CHR ''1'', tag = 0, count = 3\<rparr>,
                        \<lparr>valid = CHR ''1'', tag = 1, count = 2\<rparr>],
                       [empty_line, empty_line]],
              hit_cnt = 1, miss_cnt = 2, evict_cnt = 0, counter = 4\<rparr>"
  let ?B' = "\<lparr>cache = [[\<lparr>valid = CHR ''1'', tag = 0, count = 3\<rparr>,
                         \<lparr>valid = CHR ''1'', tag = 1, count = 4\<rparr>],
                        [empty_line, empty_line]],
               hit_cnt = 2, miss_cnt = 2, evict_cnt = 0, counter = 5\<rparr>"
  have a: "access_data 1 1 2 ?B 4 = Inr (Hit, ?B')" by code_simp
  have i: "0 = unat (addr_set 1 1 4)" by (simp add: addr_set_def sBitMask_def)
  have tg: "1 = addr_tag 1 1 4" by (simp add: addr_tag_def tBitMask_def)
  from access_data_frame[OF a i tg]
  obtain j where "line_hits (cache ?B) 0 1 j"
    "cache ?B' ! 0 ! j = (cache ?B ! 0 ! j)\<lparr>count := counter ?B\<rparr>"
    by blast
  then have "\<exists>j. line_hits (cache ?B) 0 1 j \<and>
    cache ?B' ! 0 ! j = (cache ?B ! 0 ! j)\<lparr>count := counter ?B\<rparr>" by blast
  with a show ?thesis by simp
qed

end
